theory Spec2Isabelle
  imports Main "HOL-Library.AList" "HOL-Library.Char_ord" "HOL-Library.List_Lexorder"
    "HOL-Library.Product_Lexorder"
begin

section \<open>The solver state of sudoku.py\<close>

text \<open>
  A board is a Python dictionary from the keys \<open>''A1''\<close> ... \<open>''I9''\<close> to integers; it is
  modelled as an association list, so that \<open>board.values()\<close> and \<open>domain.items()\<close> can be
  traversed. \<open>d[k]\<close> is \<open>map_of d k\<close> (a missing key raises \<open>KeyError\<close>), \<open>d[k] = v\<close> is
  \<open>AList.update k v d\<close> and \<open>del d[k]\<close> is \<open>AList.delete k d\<close>. Every raise of the source
  is a value \<open>Inl e\<close>.
\<close>

datatype error = KeyError | ValueError | IndexError

type_synonym board = "(string \<times> int) list"

record sudoku =
  board :: board
  guess_list :: "(nat \<times> string) list"
  domain :: "(string \<times> int list) list"
  unresolved :: "string list"

definition ROW :: string where
  "ROW = ''ABCDEFGHI''"

definition COL :: string where
  "COL = ''123456789''"

text \<open>
  The topology built by \<open>__init__\<close> does not depend on the board and is never assigned to
  afterwards: \<open>keys\<close>, \<open>constraints_row\<close>, \<open>constraints_col\<close>, \<open>constraints_box\<close> and
  \<open>constraints_lists_all\<close> are constants.
\<close>

definition keys :: "string list" where
  "keys = concat (map (\<lambda>r. map (\<lambda>c. [r, c]) COL) ROW)"

definition constraints_row :: "string list list" where
  "constraints_row = map (\<lambda>r. map (\<lambda>c. [r, c]) COL) ROW"

definition constraints_col :: "string list list" where
  "constraints_col = map (\<lambda>c. map (\<lambda>r. [r, c]) ROW) COL"

definition constraints_box :: "string list list" where
  "constraints_box =
     concat (map (\<lambda>r_box. map (\<lambda>c_box.
       concat (map (\<lambda>r. map (\<lambda>c. [ROW ! (3 * r_box + r), COL ! (3 * c_box + c)]) [0..<3]) [0..<3]))
       [0..<3]) [0..<3])"

definition constraints_lists_all :: "string list list list" where
  "constraints_lists_all = [constraints_row, constraints_col, constraints_box]"

text \<open>
  The nested loops \<open>for constraints_list in constraints_lists_all: for constraint_list in
  constraints_list\<close> visit the 27 groups in the order of this list.
\<close>

definition all_groups :: "string list list" where
  "all_groups = concat constraints_lists_all"

text \<open>The loop of \<open>__init__\<close> that fills \<open>domain\<close> and \<open>unresolved\<close> (lines 95 to 100).\<close>

fun init_domain ::
  "board \<Rightarrow> string list \<Rightarrow> (string \<times> int list) list \<Rightarrow> string list
     \<Rightarrow> error + ((string \<times> int list) list \<times> string list)" where
  "init_domain b [] d u = Inr (d, u)"
| "init_domain b (location # locations) d u =
     (case map_of b location of
        None \<Rightarrow> Inl KeyError
      | Some v \<Rightarrow>
          if v = 0
          then init_domain b locations (AList.update location [1, 2, 3, 4, 5, 6, 7, 8, 9] d)
                 (u @ [location])
          else init_domain b locations d u)"

definition Sudoku_init :: "board \<Rightarrow> error + sudoku" where
  "Sudoku_init b =
     (case init_domain b keys [] [] of
        Inl e \<Rightarrow> Inl e
      | Inr (d, u) \<Rightarrow> Inr \<lparr>board = b, guess_list = [], domain = d, unresolved = u\<rparr>)"

definition is_incomplete :: "sudoku \<Rightarrow> bool" where
  "is_incomplete s = (0 \<in> snd ` set (board s))"

text \<open>The innermost loop of \<open>is_solved\<close>, with the set \<open>seen\<close>.\<close>

fun check_group :: "board \<Rightarrow> string list \<Rightarrow> int set \<Rightarrow> error + bool" where
  "check_group b [] seen = Inr True"
| "check_group b (key # ks) seen =
     (case map_of b key of
        None \<Rightarrow> Inl KeyError
      | Some v \<Rightarrow> if v \<in> seen then Inr False else check_group b ks (insert v seen))"

fun check_groups :: "board \<Rightarrow> string list list \<Rightarrow> error + bool" where
  "check_groups b [] = Inr True"
| "check_groups b (constraint_list # rest) =
     (case check_group b constraint_list {} of
        Inl e \<Rightarrow> Inl e
      | Inr False \<Rightarrow> Inr False
      | Inr True \<Rightarrow> check_groups b rest)"

definition is_solved :: "sudoku \<Rightarrow> error + bool" where
  "is_solved s =
     (if is_incomplete s \<or> (- 1) \<in> snd ` set (board s) then Inr False
      else check_groups (board s) all_groups)"

text \<open>\<open>make_move\<close>: the loop \<open>for k in constraint_list\<close>, then the loop over the groups.\<close>

fun holds_value :: "board \<Rightarrow> int \<Rightarrow> string list \<Rightarrow> error + bool" where
  "holds_value b v [] = Inr False"
| "holds_value b v (k # ks) =
     (case map_of b k of
        None \<Rightarrow> Inl KeyError
      | Some w \<Rightarrow> if v = w then Inr True else holds_value b v ks)"

fun make_move_groups :: "board \<Rightarrow> string \<Rightarrow> int \<Rightarrow> string list list \<Rightarrow> error + int" where
  "make_move_groups b key v [] = Inr v"
| "make_move_groups b key v (constraint_list # rest) =
     (if key \<in> set constraint_list
      then (case holds_value b v constraint_list of
              Inl e \<Rightarrow> Inl e
            | Inr True \<Rightarrow> Inr (- 1)
            | Inr False \<Rightarrow> make_move_groups b key v rest)
      else make_move_groups b key v rest)"

definition make_move :: "sudoku \<Rightarrow> string \<Rightarrow> int \<Rightarrow> error + int" where
  "make_move s key v = make_move_groups (board s) key v all_groups"

text \<open>
  Lines 152 to 154 of \<open>make_moves\<close>: the only candidate left is passed through
  \<open>make_move\<close> and written to the board, then the key leaves \<open>unresolved\<close>
  (\<open>list.remove\<close> raises \<open>ValueError\<close> on a missing element) and \<open>domain\<close>.
\<close>

definition commit :: "string \<Rightarrow> sudoku \<Rightarrow> error + sudoku" where
  "commit key s =
     (case map_of (domain s) key of
        None \<Rightarrow> Inl KeyError
      | Some d \<Rightarrow>
         (case d of
            [] \<Rightarrow> Inl IndexError
          | c # _ \<Rightarrow>
             (case make_move s key c of
                Inl e \<Rightarrow> Inl e
              | Inr m \<Rightarrow>
                  if key \<in> set (unresolved s)
                  then Inr (s\<lparr>board := AList.update key m (board s),
                              unresolved := remove1 key (unresolved s),
                              domain := AList.delete key (domain s)\<rparr>)
                  else Inl ValueError)))"

text \<open>
  The \<open>for\<close> loop inside the \<open>while\<close> of \<open>make_moves\<close>. It either returns from
  \<open>make_moves\<close> (after a commit) or falls through with the flag \<open>continue_loop\<close>.
  \<open>del self.domain[key][b]\<close> with \<open>b\<close> the index of the first occurrence is \<open>remove1\<close>.
  The test \<open>self.board[k] != 0 and self.board[k] in self.domain[key]\<close> reads
  \<open>self.domain[key]\<close> only when the first conjunct holds.
\<close>

datatype for_exit = Returned sudoku | Fell_through sudoku bool

fun make_moves_for :: "string \<Rightarrow> string list \<Rightarrow> sudoku \<Rightarrow> bool \<Rightarrow> error + for_exit" where
  "make_moves_for key [] s continue_loop = Inr (Fell_through s continue_loop)"
| "make_moves_for key (k # ks) s continue_loop =
     (case map_of (board s) k of
        None \<Rightarrow> Inl KeyError
      | Some v \<Rightarrow>
          if v = 0 then make_moves_for key ks s continue_loop
          else (case map_of (domain s) key of
                  None \<Rightarrow> Inl KeyError
                | Some d \<Rightarrow>
                    if v \<in> set d
                    then (let s1 = s\<lparr>domain := AList.update key (remove1 v d) (domain s)\<rparr>
                          in if length (remove1 v d) = 1
                             then (case commit key s1 of
                                     Inl e \<Rightarrow> Inl e
                                   | Inr s2 \<Rightarrow> Inr (Returned s2))
                             else make_moves_for key ks s1 True)
                    else make_moves_for key ks s continue_loop))"

definition dlen :: "string \<Rightarrow> sudoku \<Rightarrow> nat" where
  "dlen key s = (case map_of (domain s) key of None \<Rightarrow> 0 | Some d \<Rightarrow> length d)"

lemma map_of_update_same: "map_of (AList.update k v al) k = Some v"
  by (simp add: update_conv')

lemma make_moves_for_dlen:
  "make_moves_for key ks s c = Inr (Fell_through s' c') \<Longrightarrow>
     dlen key s' \<le> dlen key s \<and> (c' \<longrightarrow> c \<or> dlen key s' < dlen key s)"
proof (induction ks arbitrary: s c)
  case Nil
  then show ?case by simp
next
  case (Cons k ks)
  show ?case
  proof (cases "map_of (board s) k")
    case None
    with Cons.prems show ?thesis by simp
  next
    case (Some v)
    show ?thesis
    proof (cases "v = 0")
      case True
      with Some Cons show ?thesis by simp
    next
      case False
      show ?thesis
      proof (cases "map_of (domain s) key")
        case None
        with Some False Cons.prems show ?thesis by simp
      next
        case (Some d)
        note dom = this
        show ?thesis
        proof (cases "v \<in> set d")
          case True
          let ?s1 = "s\<lparr>domain := AList.update key (remove1 v d) (domain s)\<rparr>"
          from True have len: "length (remove1 v d) < length d"
            by (simp add: length_remove1) (cases d; auto)
          have d1: "dlen key ?s1 < dlen key s"
            using len dom by (simp add: dlen_def map_of_update_same)
          show ?thesis
          proof (cases "length (remove1 v d) = 1")
            case True
            with \<open>v \<in> set d\<close> \<open>map_of (board s) k = Some v\<close> False dom Cons.prems
            show ?thesis by (simp add: Let_def split: sum.splits)
          next
            case False
            with \<open>v \<in> set d\<close> \<open>map_of (board s) k = Some v\<close> \<open>v \<noteq> 0\<close> dom Cons.prems
            have "make_moves_for key ks ?s1 True = Inr (Fell_through s' c')"
              by (simp add: Let_def)
            from Cons.IH[OF this] d1 show ?thesis by auto
          qed
        next
          case False
          with \<open>map_of (board s) k = Some v\<close> \<open>v \<noteq> 0\<close> dom Cons show ?thesis by simp
        qed
      qed
    qed
  qed
qed

text \<open>
  The \<open>while continue_loop\<close> loop of \<open>make_moves\<close>. \<open>has_changes\<close> is set wherever
  \<open>continue_loop\<close> is, and the commit returns \<open>False\<close>.
\<close>

function make_moves_while ::
  "string \<Rightarrow> string list \<Rightarrow> sudoku \<Rightarrow> bool \<Rightarrow> error + (bool \<times> sudoku)" where
  "make_moves_while key constraint_list s has_changes =
     (case make_moves_for key constraint_list s False of
        Inl e \<Rightarrow> Inl e
      | Inr (Returned s') \<Rightarrow> Inr (False, s')
      | Inr (Fell_through s' continue_loop) \<Rightarrow>
          if continue_loop then make_moves_while key constraint_list s' True
          else Inr (has_changes, s'))"
  by pat_completeness auto
termination
proof (relation "measure (\<lambda>(key, cl, s, hc). dlen key s)")
  show "wf (measure (\<lambda>(key, cl, s, hc). dlen key s))" by simp
next
  fix key cl s hc x s' c
  assume "make_moves_for key cl s False = Inr x" "x = Fell_through s' c" "c"
  then have "make_moves_for key cl s False = Inr (Fell_through s' True)" by simp
  from make_moves_for_dlen[OF this]
  show "((key, cl, s', True), (key, cl, s, hc)) \<in> measure (\<lambda>(key, cl, s, hc). dlen key s)"
    by simp
qed

definition make_moves :: "string \<Rightarrow> string list \<Rightarrow> sudoku \<Rightarrow> error + (bool \<times> sudoku)" where
  "make_moves key constraint_list s = make_moves_while key constraint_list s False"

text \<open>
  The sweep of \<open>ac3\<close>: the three nested \<open>for\<close> loops visit every group and, in it, every
  key. In \<open>has_changes = has_changes or self.make_moves(key, constraint_list)\<close> the call is
  not evaluated once \<open>has_changes\<close> is true.
\<close>

definition sweep_order :: "(string \<times> string list) list" where
  "sweep_order =
     concat (map (\<lambda>constraint_list. map (\<lambda>key. (key, constraint_list)) constraint_list) all_groups)"

fun ac3_sweep ::
  "(string \<times> string list) list \<Rightarrow> sudoku \<Rightarrow> bool \<Rightarrow> error + (bool \<times> sudoku)" where
  "ac3_sweep [] s has_changes = Inr (has_changes, s)"
| "ac3_sweep ((key, constraint_list) # rest) s has_changes =
     (if key \<in> set (unresolved s)
      then (if has_changes then ac3_sweep rest s True
            else (case make_moves key constraint_list s of
                    Inl e \<Rightarrow> Inl e
                  | Inr (b, s') \<Rightarrow> ac3_sweep rest s' b))
      else ac3_sweep rest s has_changes)"

text \<open>The number of candidates in all domains; every removal and every commit lowers it.\<close>

definition candidates :: "(string \<times> int list) list \<Rightarrow> nat" where
  "candidates al = sum_list (map (\<lambda>kd. length (snd kd)) al)"

definition no_growth :: "sudoku \<Rightarrow> sudoku \<Rightarrow> bool" where
  "no_growth s s' \<longleftrightarrow>
     candidates (domain s') \<le> candidates (domain s) \<and> length (domain s') \<le> length (domain s)"

lemma no_growth_refl: "no_growth s s"
  by (simp add: no_growth_def)

lemma no_growth_trans: "no_growth s s' \<Longrightarrow> no_growth s' s'' \<Longrightarrow> no_growth s s''"
  by (auto simp: no_growth_def)

lemma candidates_update:
  "map_of al k = Some d \<Longrightarrow> candidates (AList.update k d' al) + length d = candidates al + length d'"
  by (induction al) (auto simp: candidates_def)

lemma length_update_present:
  "map_of al k = Some d \<Longrightarrow> length (AList.update k d' al) = length al"
  by (induction al) auto

lemma candidates_delete_le: "candidates (AList.delete k al) \<le> candidates al"
  by (induction al) (auto simp: candidates_def)

lemma candidates_delete:
  "map_of al k = Some d \<Longrightarrow> candidates (AList.delete k al) + length d \<le> candidates al"
proof (induction al)
  case Nil
  then show ?case by simp
next
  case (Cons p al)
  show ?case
  proof (cases "fst p = k")
    case True
    with Cons.prems have "snd p = d" by (cases p) simp
    with True candidates_delete_le[of k al] show ?thesis
      by (cases p) (simp add: candidates_def)
  next
    case False
    with Cons show ?thesis by (cases p) (simp add: candidates_def)
  qed
qed

lemma commit_candidates:
  assumes "commit key s = Inr s'"
  shows "candidates (domain s') < candidates (domain s) \<and> length (domain s') \<le> length (domain s)"
proof -
  from assms obtain c cs m where d: "map_of (domain s) key = Some (c # cs)"
    and s': "s' = s\<lparr>board := AList.update key m (board s),
                    unresolved := remove1 key (unresolved s),
                    domain := AList.delete key (domain s)\<rparr>"
    by (auto simp: commit_def split: option.splits list.splits sum.splits if_splits)
  from candidates_delete[OF d] show ?thesis
    by (simp add: s' length_delete_le)
qed

lemma remove1_candidates:
  assumes "map_of (domain s) key = Some d" "v \<in> set d"
  shows "candidates (domain (s\<lparr>domain := AList.update key (remove1 v d) (domain s)\<rparr>))
           < candidates (domain s)
         \<and> length (domain (s\<lparr>domain := AList.update key (remove1 v d) (domain s)\<rparr>))
           = length (domain s)"
proof -
  from assms(2) have "length (remove1 v d) < length d"
    by (simp add: length_remove1) (cases d; auto)
  with candidates_update[OF assms(1), of "remove1 v d"] length_update_present[OF assms(1)]
  show ?thesis by simp
qed

lemma make_moves_for_candidates:
  "make_moves_for key ks s c = Inr r \<Longrightarrow>
     (case r of
        Returned s' \<Rightarrow> no_growth s s' \<and> candidates (domain s') < candidates (domain s)
      | Fell_through s' c' \<Rightarrow>
          no_growth s s' \<and> (c' \<longrightarrow> c \<or> candidates (domain s') < candidates (domain s)))"
proof (induction ks arbitrary: s c)
  case Nil
  then show ?case by (auto simp: no_growth_refl)
next
  case (Cons k ks)
  show ?case
  proof (cases "\<exists>v d. map_of (board s) k = Some v \<and> v \<noteq> 0 \<and> map_of (domain s) key = Some d
                  \<and> v \<in> set d")
    case True
    then obtain v d where v: "map_of (board s) k = Some v" "v \<noteq> 0"
      and d: "map_of (domain s) key = Some d" "v \<in> set d" by blast
    let ?s1 = "s\<lparr>domain := AList.update key (remove1 v d) (domain s)\<rparr>"
    note r1 = remove1_candidates[OF d]
    show ?thesis
    proof (cases "length (remove1 v d) = 1")
      case True
      with v d Cons.prems obtain s2 where c2: "commit key ?s1 = Inr s2" and r: "r = Returned s2"
        by (auto simp: Let_def split: sum.splits)
      from commit_candidates[OF c2] r1 r show ?thesis
        by (simp add: no_growth_def)
    next
      case False
      with v d Cons.prems have "make_moves_for key ks ?s1 True = Inr r"
        by (simp add: Let_def)
      from Cons.IH[OF this] r1 show ?thesis
        by (auto simp: no_growth_def split: for_exit.splits)
    qed
  next
    case False
    with Cons.prems have "make_moves_for key ks s c = Inr r"
      by (auto split: option.splits if_splits)
    from Cons.IH[OF this] show ?thesis .
  qed
qed

lemma make_moves_while_candidates:
  "make_moves_while key cl s hc = Inr (b, s') \<Longrightarrow>
     no_growth s s' \<and> (b \<longrightarrow> hc \<or> candidates (domain s') < candidates (domain s))"
proof (induction key cl s hc rule: make_moves_while.induct)
  case (1 key cl s hc)
  from "1.prems" obtain r where r: "make_moves_for key cl s False = Inr r"
    by (subst (asm) make_moves_while.simps) (auto split: sum.splits)
  note m = make_moves_for_candidates[OF r]
  show ?case
  proof (cases r)
    case (Returned s1)
    with r "1.prems" have "b = False" "s' = s1"
      by (subst (asm) make_moves_while.simps, simp)+
    with m Returned show ?thesis by simp
  next
    case (Fell_through s1 c)
    show ?thesis
    proof (cases c)
      case True
      with r Fell_through "1.prems" have w: "make_moves_while key cl s1 True = Inr (b, s')"
        by (subst (asm) make_moves_while.simps) simp
      from "1.IH"[OF r Fell_through True w] m Fell_through True show ?thesis
        by (auto simp: no_growth_def)
    next
      case False
      with r Fell_through "1.prems" have "b = hc" "s' = s1"
        by (subst (asm) make_moves_while.simps, simp)+
      with m Fell_through False show ?thesis by simp
    qed
  qed
qed

lemma make_moves_candidates:
  "make_moves key cl s = Inr (b, s') \<Longrightarrow>
     no_growth s s' \<and> (b \<longrightarrow> candidates (domain s') < candidates (domain s))"
  using make_moves_while_candidates[of key cl s False b s'] by (simp add: make_moves_def)

lemma ac3_sweep_candidates:
  "ac3_sweep ps s hc = Inr (b, s') \<Longrightarrow>
     no_growth s s' \<and> (b \<longrightarrow> hc \<or> candidates (domain s') < candidates (domain s))"
proof (induction ps s hc rule: ac3_sweep.induct)
  case (1 s hc)
  then show ?case by (simp add: no_growth_refl)
next
  case (2 key cl rest s hc)
  show ?case
  proof (cases "key \<in> set (unresolved s) \<and> \<not> hc")
    case True
    with "2.prems" obtain b1 s1 where m: "make_moves key cl s = Inr (b1, s1)"
      and r: "ac3_sweep rest s1 b1 = Inr (b, s')"
      by (auto split: sum.splits)
    from True have u: "key \<in> set (unresolved s)" and h: "\<not> hc" by simp_all
    from "2.IH"(2)[OF u h m refl r] make_moves_candidates[OF m] show ?thesis
      by (auto simp: no_growth_def)
  next
    case False
    with "2.prems" "2.IH"(1,3) show ?thesis
      by (auto split: if_splits)
  qed
qed

text \<open>\<open>ac3\<close>: sweeps are repeated while one reports a change.\<close>

function ac3 :: "sudoku \<Rightarrow> error + sudoku" where
  "ac3 s =
     (case ac3_sweep sweep_order s False of
        Inl e \<Rightarrow> Inl e
      | Inr (has_changes, s') \<Rightarrow> if has_changes then ac3 s' else Inr s')"
  by pat_completeness auto
termination
proof (relation "measure (\<lambda>s. candidates (domain s))")
  show "wf (measure (\<lambda>s. candidates (domain s)))" by simp
next
  fix s x hc s'
  assume "ac3_sweep sweep_order s False = Inr x" "(hc, s') = x" "hc"
  then have "ac3_sweep sweep_order s False = Inr (True, s')" by auto
  from ac3_sweep_candidates[OF this]
  show "(s', s) \<in> measure (\<lambda>s. candidates (domain s))" by simp
qed

lemma ac3_no_growth: "ac3 s = Inr s' \<Longrightarrow> no_growth s s'"
proof (induction s rule: ac3.induct)
  case (1 s)
  from "1.prems" obtain hc s1 where sw: "ac3_sweep sweep_order s False = Inr (hc, s1)"
    by (subst (asm) ac3.simps) (auto split: sum.splits)
  show ?case
  proof (cases hc)
    case True
    with sw "1.prems" have "ac3 s1 = Inr s'"
      by (subst (asm) ac3.simps) simp
    from "1.IH"[OF sw refl True this] ac3_sweep_candidates[OF sw] show ?thesis
      by (auto intro: no_growth_trans)
  next
    case False
    with sw "1.prems" have "s' = s1"
      by (subst (asm) ac3.simps) simp
    with ac3_sweep_candidates[OF sw] show ?thesis by simp
  qed
qed

section \<open>Search\<close>

text \<open>
  The first part of \<open>expand_guess_tree\<close> (lines 174 to 185): the guess list is the sorted
  list of pairs (number of candidates, key); Python compares the pairs lexicographically
  and the keys as strings. The head is taken (\<open>IndexError\<close> on an empty list) and its key
  leaves \<open>domain\<close> and \<open>unresolved\<close> of \<open>self\<close>.
\<close>

definition select_guess :: "sudoku \<Rightarrow> error + (string \<times> int list \<times> sudoku)" where
  "select_guess s =
     (case sort (map (\<lambda>(key, value). (length value, key)) (domain s)) of
        [] \<Rightarrow> Inl IndexError
      | next_guess # gl \<Rightarrow>
          (case map_of (domain s) (snd next_guess) of
             None \<Rightarrow> Inl KeyError
           | Some values_list \<Rightarrow>
               if snd next_guess \<in> set (unresolved s)
               then Inr (snd next_guess, values_list,
                         s\<lparr>guess_list := gl,
                           domain := AList.delete (snd next_guess) (domain s),
                           unresolved := remove1 (snd next_guess) (unresolved s)\<rparr>)
               else Inl ValueError))"

text \<open>
  The three outcomes that \<open>solve\<close> and \<open>expand_guess_tree\<close> tell apart after \<open>ac3\<close>, named
  as in the comments of the source: \<open>if is_solved() ... elif is_incomplete() ... else\<close>.
\<close>

datatype status = Solved | Incomplete | Invalid

definition status_of :: "sudoku \<Rightarrow> error + status" where
  "status_of s =
     (case is_solved s of
        Inl e \<Rightarrow> Inl e
      | Inr True \<Rightarrow> Inr Solved
      | Inr False \<Rightarrow> if is_incomplete s then Inr Incomplete else Inr Invalid)"

lemma length_delete_present:
  "map_of al k = Some v \<Longrightarrow> length (AList.delete k al) < length al"
proof (induction al)
  case Nil
  then show ?case by simp
next
  case (Cons p al)
  show ?case
  proof (cases "fst p = k")
    case True
    with length_delete_le[of k al] show ?thesis by (cases p) simp
  next
    case False
    with Cons show ?thesis by (cases p) simp
  qed
qed

lemma select_guess_length:
  "select_guess s = Inr (key, vs, s') \<Longrightarrow> length (domain s') < length (domain s)"
  by (auto simp: select_guess_def length_delete_present
           split: list.splits option.splits if_splits)

text \<open>
  \<open>expand_guess_tree\<close> returns its result together with \<open>self\<close> as the call leaves it.
  \<open>try_values\<close> is the loop \<open>for value in values_list\<close>: every round works on a deep copy
  \<open>p\<close> of \<open>self\<close>, so \<open>self\<close> is the same in all rounds.
\<close>

function expand_guess_tree :: "sudoku \<Rightarrow> error + (sudoku option \<times> sudoku)"
  and try_values :: "sudoku \<Rightarrow> string \<Rightarrow> int list \<Rightarrow> error + sudoku option" where
  "expand_guess_tree s =
     (case select_guess s of
        Inl e \<Rightarrow> Inl e
      | Inr (key, values_list, s') \<Rightarrow>
          (case try_values s' key values_list of
             Inl e \<Rightarrow> Inl e
           | Inr r \<Rightarrow> Inr (r, s')))"
| "try_values s key [] = Inr None"
| "try_values s key (v # rest) =
     (case ac3 (s\<lparr>board := AList.update key v (board s)\<rparr>) of
        Inl e \<Rightarrow> Inl e
      | Inr p \<Rightarrow>
          (case status_of p of
             Inl e \<Rightarrow> Inl e
           | Inr Solved \<Rightarrow> Inr (Some p)
           | Inr Incomplete \<Rightarrow>
               (case expand_guess_tree p of
                  Inl e \<Rightarrow> Inl e
                | Inr r \<Rightarrow>
                    (case fst r of
                       Some q \<Rightarrow> Inr (Some q)
                     | None \<Rightarrow> try_values s key rest))
           | Inr Invalid \<Rightarrow> try_values s key rest))"
  by pat_completeness auto
termination
proof (relation "measures
    [\<lambda>x. case x of Inl s \<Rightarrow> 2 * length (domain s)
                 | Inr (s, key, vs) \<Rightarrow> 2 * length (domain s) + 1,
     \<lambda>x. case x of Inl s \<Rightarrow> 0 | Inr (s, key, vs) \<Rightarrow> length vs]", goal_cases)
  case 1
  then show ?case by simp
next
  case (2 s x key y vs s')
  then have "select_guess s = Inr (key, vs, s')" by simp
  from select_guess_length[OF this] show ?case by simp
next
  case (3 s key v rest p st)
  from ac3_no_growth[OF 3(1)] show ?case by (simp add: no_growth_def)
next
  case 4
  then show ?case by simp
next
  case 5
  then show ?case by simp
qed

definition solve :: "sudoku \<Rightarrow> error + (sudoku option \<times> sudoku)" where
  "solve s =
     (case ac3 s of
        Inl e \<Rightarrow> Inl e
      | Inr s1 \<Rightarrow>
          (case status_of s1 of
             Inl e \<Rightarrow> Inl e
           | Inr Solved \<Rightarrow> Inr (Some s1, s1)
           | Inr Incomplete \<Rightarrow> expand_guess_tree s1
           | Inr Invalid \<Rightarrow> Inr (None, s1)))"

text \<open>
  \<open>backtracking\<close>: \<open>Sudoku(board)\<close> stores the argument itself in \<open>self.board\<close>
  (\<open>self.board = board\<close>, no copy), so after \<open>b.solve()\<close> the name \<open>board\<close> denotes
  the board of \<open>b\<close> as \<open>solve\<close> left it; that is what \<open>return board\<close> returns.
\<close>

definition backtracking :: "board \<Rightarrow> error + board" where
  "backtracking b0 =
     (case Sudoku_init b0 of
        Inl e \<Rightarrow> Inl e
      | Inr b \<Rightarrow>
          (case solve b of
             Inl e \<Rightarrow> Inl e
           | Inr (r, b') \<Rightarrow>
               (case r of
                  None \<Rightarrow> Inr (board b')
                | Some s \<Rightarrow> Inr (board s))))"

section \<open>Topology\<close>

lemma set_keys: "set keys = {[r, c] | r c. r \<in> set ROW \<and> c \<in> set COL}"
  by (auto simp: keys_def)

lemma length_ROW: "length ROW = 9" and length_COL: "length COL = 9"
  by (simp_all add: ROW_def COL_def)

lemma box_cell: "i < 9 \<Longrightarrow> j < 9 \<Longrightarrow> [ROW ! i, COL ! j] \<in> set keys"
  by (simp add: set_keys length_ROW length_COL)

lemma groups_subset: "g \<in> set all_groups \<Longrightarrow> set g \<subseteq> set keys"
proof -
  assume "g \<in> set all_groups"
  then consider "g \<in> set constraints_row" | "g \<in> set constraints_col" | "g \<in> set constraints_box"
    by (auto simp: all_groups_def constraints_lists_all_def)
  then show ?thesis
  proof cases
    case 1
    then show ?thesis by (auto simp: constraints_row_def set_keys)
  next
    case 2
    then show ?thesis by (auto simp: constraints_col_def set_keys)
  next
    case 3
    then obtain rb cb where "rb < 3" "cb < 3"
      and g: "g = concat (map (\<lambda>r. map (\<lambda>c. [ROW ! (3 * rb + r), COL ! (3 * cb + c)]) [0..<3]) [0..<3])"
      by (auto simp: constraints_box_def)
    show ?thesis
    proof
      fix k assume "k \<in> set g"
      with g obtain r c where "r < 3" "c < 3" "k = [ROW ! (3 * rb + r), COL ! (3 * cb + c)]"
        by auto
      with \<open>rb < 3\<close> \<open>cb < 3\<close> show "k \<in> set keys"
        by (simp add: box_cell)
    qed
  qed
qed

lemma upt_3: "[0..<3] = [0, 1, 2]"
  by (simp add: upt_rec)

lemma groups_length: "g \<in> set all_groups \<Longrightarrow> length g = 9"
  by (auto simp: all_groups_def constraints_lists_all_def constraints_row_def constraints_col_def
      constraints_box_def length_ROW length_COL upt_3)

lemma sweep_order_ok: "(key, cl) \<in> set sweep_order \<Longrightarrow> cl \<in> set all_groups \<and> key \<in> set cl"
  by (auto simp: sweep_order_def)

lemma distinct_keys: "distinct keys"
  by code_simp

section \<open>Well-formed states\<close>

definition wf_grid :: "board \<Rightarrow> bool" where
  "wf_grid b \<longleftrightarrow>
     distinct (map fst b) \<and> fst ` set b = set keys \<and> (\<forall>v\<in>snd ` set b. 0 \<le> v \<and> v \<le> 9)"

definition wf_board :: "board \<Rightarrow> bool" where
  "wf_board b \<longleftrightarrow>
     distinct (map fst b) \<and> fst ` set b = set keys \<and> (\<forall>v\<in>snd ` set b. - 1 \<le> v \<and> v \<le> 9)"

definition wf_domain :: "sudoku \<Rightarrow> bool" where
  "wf_domain s \<longleftrightarrow>
     distinct (map fst (domain s)) \<and> distinct (unresolved s) \<and>
     fst ` set (domain s) = set (unresolved s) \<and>
     (\<forall>d\<in>snd ` set (domain s). distinct d \<and> set d \<subseteq> {1..9} \<and> 2 \<le> length d)"

definition empties_tracked :: "sudoku \<Rightarrow> bool" where
  "empties_tracked s \<longleftrightarrow>
     fst ` set (domain s) = fst ` set (filter (\<lambda>kv. snd kv = 0) (board s))"

definition wf_state :: "sudoku \<Rightarrow> bool" where
  "wf_state s \<longleftrightarrow> wf_board (board s) \<and> wf_domain s \<and> empties_tracked s"

definition evolves :: "sudoku \<Rightarrow> sudoku \<Rightarrow> bool" where
  "evolves s s' \<longleftrightarrow>
     (\<forall>kv\<in>set (board s). snd kv \<noteq> 0 \<longrightarrow> kv \<in> set (board s')) \<and>
     set (unresolved s') \<subseteq> set (unresolved s) \<and>
     (\<forall>kd'\<in>set (domain s'). \<exists>kd\<in>set (domain s). fst kd = fst kd' \<and> set (snd kd') \<subseteq> set (snd kd))"

lemma evolves_refl: "evolves s s"
  by (auto simp: evolves_def)

lemma evolves_trans: "evolves s s' \<Longrightarrow> evolves s' s'' \<Longrightarrow> evolves s s''"
  unfolding evolves_def
  apply (intro conjI)
    apply blast
   apply blast
  apply (metis (no_types, lifting) order_trans)
  done

lemma set_update_subset: "set (AList.update k v al) \<subseteq> insert (k, v) (set al)"
  by (induction al) auto

lemma set_update_distinct:
  "distinct (map fst al) \<Longrightarrow> set (AList.update k v al) = insert (k, v) {p \<in> set al. fst p \<noteq> k}"
  by (induction al) (auto simp: rev_image_eqI)

lemma set_delete: "set (AList.delete k al) = {p \<in> set al. fst p \<noteq> k}"
  by (induction al) auto

lemma wf_board_lookup: "wf_board b \<Longrightarrow> k \<in> set keys \<Longrightarrow> \<exists>v. map_of b k = Some v \<and> - 1 \<le> v \<and> v \<le> 9"
  unfolding wf_board_def
  by (metis (no_types, lifting) image_eqI map_of_eq_None_iff not_Some_eq map_of_SomeD snd_conv)

lemma wf_board_update:
  assumes "wf_board b" "k \<in> set keys" "- 1 \<le> v" "v \<le> 9"
  shows "wf_board (AList.update k v b)"
  using assms set_update_subset[of k v b]
  unfolding wf_board_def
  by (auto simp: distinct_update dom_update)


lemma zero_cells: "fst ` set (filter (\<lambda>kv. snd kv = 0) b) = {k. (k, 0) \<in> set b}"
  by (auto simp: image_iff)

lemma wf_state_domain_iff:
  assumes "wf_state s"
  shows "k \<in> fst ` set (domain s) \<longleftrightarrow> (k, 0) \<in> set (board s)"
proof -
  from assms have "fst ` set (domain s) = {k. (k, 0) \<in> set (board s)}"
    unfolding wf_state_def empties_tracked_def zero_cells by (elim conjE)
  then show ?thesis by simp
qed

lemma wf_state_unresolved:
  assumes "wf_state s" "k \<in> set (unresolved s)"
  shows "(k, 0) \<in> set (board s)" and "k \<in> set keys" and "k \<in> fst ` set (domain s)"
proof -
  from assms show d: "k \<in> fst ` set (domain s)" by (simp add: wf_state_def wf_domain_def)
  with assms(1) show b: "(k, 0) \<in> set (board s)" by (simp add: wf_state_domain_iff)
  from b have "k \<in> fst ` set (board s)" by force
  with assms(1) show "k \<in> set keys" by (simp add: wf_state_def wf_board_def)
qed

lemma wf_state_nonzero_other:
  assumes "wf_state s" "k \<in> set (unresolved s)" "kv \<in> set (board s)" "snd kv \<noteq> 0"
  shows "fst kv \<noteq> k"
proof
  assume "fst kv = k"
  with assms(3) have "(k, snd kv) \<in> set (board s)" by (cases kv) auto
  moreover from assms(1) have "distinct (map fst (board s))" by (simp add: wf_state_def wf_board_def)
  moreover note wf_state_unresolved(1)[OF assms(1,2)]
  ultimately have "snd kv = 0" by (meson eq_key_imp_eq_value)
  with assms(4) show False by simp
qed

subsection \<open>make_move\<close>

lemma holds_value_total:
  "set ks \<subseteq> fst ` set b \<Longrightarrow> holds_value b v ks = Inr (\<exists>k\<in>set ks. map_of b k = Some v)"
proof (induction ks)
  case Nil
  then show ?case by simp
next
  case (Cons k ks)
  then obtain w where "map_of b k = Some w"
    by (cases "map_of b k") (auto simp: map_of_eq_None_iff)
  with Cons show ?case by auto
qed

lemma make_move_groups_total:
  "\<forall>g\<in>set gs. set g \<subseteq> fst ` set b \<Longrightarrow>
   make_move_groups b key v gs =
     Inr (if \<exists>g\<in>set gs. key \<in> set g \<and> (\<exists>k\<in>set g. map_of b k = Some v) then - 1 else v)"
proof (induction gs)
  case Nil
  then show ?case by simp
next
  case (Cons g gs)
  then have "holds_value b v g = Inr (\<exists>k\<in>set g. map_of b k = Some v)"
    by (simp add: holds_value_total)
  with Cons show ?case by (auto split: bool.splits)
qed

definition group_holds :: "board \<Rightarrow> string \<Rightarrow> int \<Rightarrow> bool" where
  "group_holds b key v \<longleftrightarrow>
     (\<exists>g\<in>set all_groups. key \<in> set g \<and> (\<exists>k\<in>set g. map_of b k = Some v))"

lemma make_move_total:
  assumes "wf_board (board s)"
  shows "make_move s key v = Inr (if group_holds (board s) key v then - 1 else v)"
proof -
  from assms have "\<forall>g\<in>set all_groups. set g \<subseteq> fst ` set (board s)"
    using groups_subset by (auto simp: wf_board_def)
  then show ?thesis
    unfolding make_move_def group_holds_def by (rule make_move_groups_total)
qed

subsection \<open>One removal, one commit\<close>

lemma remove_step:
  assumes wf: "wf_state s" and d: "map_of (domain s) key = Some d" and v: "v \<in> set d"
    and n: "length (remove1 v d) \<noteq> 1"
  shows "wf_state (s\<lparr>domain := AList.update key (remove1 v d) (domain s)\<rparr>)"
    and "evolves s (s\<lparr>domain := AList.update key (remove1 v d) (domain s)\<rparr>)"
proof -
  let ?d' = "remove1 v d"
  let ?s1 = "s\<lparr>domain := AList.update key ?d' (domain s)\<rparr>"
  from d have kd: "(key, d) \<in> set (domain s)" by (rule map_of_SomeD)
  then have kdom: "key \<in> fst ` set (domain s)" by force
  from wf kd have dd: "distinct d" "set d \<subseteq> {1..9}" "2 \<le> length d"
    by (force simp: wf_state_def wf_domain_def)+
  from v dd n have d': "distinct ?d'" "set ?d' \<subseteq> {1..9}" "2 \<le> length ?d'"
    using set_remove1_subset[of v d] by (auto simp: length_remove1)
  have sub: "set (domain ?s1) \<subseteq> insert (key, ?d') (set (domain s))"
    using set_update_subset[of key ?d' "domain s"] by simp
  have dom: "fst ` set (domain ?s1) = fst ` set (domain s)"
    using kdom by (auto simp: dom_update)
  have vals: "\<forall>d0\<in>snd ` set (domain ?s1). distinct d0 \<and> set d0 \<subseteq> {1..9} \<and> 2 \<le> length d0"
  proof
    fix d0 assume "d0 \<in> snd ` set (domain ?s1)"
    then obtain k0 where "(k0, d0) \<in> set (domain ?s1)" by force
    with sub have "d0 = ?d' \<or> (k0, d0) \<in> set (domain s)" by auto
    then show "distinct d0 \<and> set d0 \<subseteq> {1..9} \<and> 2 \<le> length d0"
    proof
      assume "d0 = ?d'"
      with d' show ?thesis by simp
    next
      assume "(k0, d0) \<in> set (domain s)"
      with wf show ?thesis by (force simp: wf_state_def wf_domain_def)
    qed
  qed
  from wf have "wf_domain ?s1"
    unfolding wf_state_def wf_domain_def
    using vals dom by (simp add: distinct_update)
  moreover from wf have "empties_tracked ?s1"
    unfolding wf_state_def empties_tracked_def using dom by simp
  ultimately show "wf_state ?s1"
    using wf by (simp add: wf_state_def)
  show "evolves s ?s1"
    unfolding evolves_def
  proof (intro conjI ballI)
    fix kd' assume "kd' \<in> set (domain ?s1)"
    with sub have "kd' = (key, ?d') \<or> kd' \<in> set (domain s)" by auto
    then show "\<exists>kd\<in>set (domain s). fst kd = fst kd' \<and> set (snd kd') \<subseteq> set (snd kd)"
    proof
      assume "kd' = (key, ?d')"
      with kd set_remove1_subset[of v d] show ?thesis by force
    next
      assume "kd' \<in> set (domain s)"
      then show ?thesis by blast
    qed
  qed simp_all
qed

definition committed :: "string \<Rightarrow> int \<Rightarrow> sudoku \<Rightarrow> sudoku" where
  "committed key c s =
     s\<lparr>board := AList.update key (if group_holds (board s) key c then - 1 else c) (board s),
       unresolved := remove1 key (unresolved s),
       domain := AList.delete key (domain s)\<rparr>"

lemma commit_step:
  assumes wf: "wf_state s" and u: "key \<in> set (unresolved s)"
    and d: "map_of (domain s) key = Some d" and v: "v \<in> set d" and c: "remove1 v d = [c]"
  shows "commit key (s\<lparr>domain := AList.update key (remove1 v d) (domain s)\<rparr>)
           = Inr (committed key c s)"
proof -
  let ?s1 = "s\<lparr>domain := AList.update key (remove1 v d) (domain s)\<rparr>"
  from wf have "wf_board (board ?s1)" by (simp add: wf_state_def)
  from make_move_total[OF this, of key c] u c show ?thesis
    by (simp add: commit_def committed_def map_of_update_same delete_update_same)
qed

lemma committed_wf:
  assumes wf: "wf_state s" and u: "key \<in> set (unresolved s)"
    and d: "map_of (domain s) key = Some d" and c: "c \<in> set d"
  shows "wf_state (committed key c s)" and "evolves s (committed key c s)"
    and "key \<notin> set (unresolved (committed key c s))"
proof -
  let ?m = "if group_holds (board s) key c then - 1 else c"
  let ?s2 = "committed key c s"
  from d have kd: "(key, d) \<in> set (domain s)" by (rule map_of_SomeD)
  from wf kd have dd: "set d \<subseteq> {1..9}"
    by (force simp: wf_state_def wf_domain_def)
  with c have m: "- 1 \<le> ?m" "?m \<le> 9" "?m \<noteq> 0" by auto
  note ku = wf_state_unresolved[OF wf u]
  from wf have db: "distinct (map fst (board s))" by (simp add: wf_state_def wf_board_def)
  from wf have wb: "wf_board (board s)" by (simp add: wf_state_def)
  have b2: "board ?s2 = AList.update key ?m (board s)" by (simp add: committed_def)
  have u2: "unresolved ?s2 = remove1 key (unresolved s)" by (simp add: committed_def)
  have d2: "domain ?s2 = AList.delete key (domain s)" by (simp add: committed_def)
  have wb2: "wf_board (board ?s2)"
    unfolding b2 by (rule wf_board_update[OF wb ku(2) m(1,2)])
  from wf have wd: "wf_domain s" by (simp add: wf_state_def)
  have wd2: "wf_domain ?s2"
    using wd unfolding wf_domain_def d2 u2
    by (auto simp: distinct_delete set_delete image_iff)
  have e1: "fst ` set (domain ?s2) = fst ` set (domain s) - {key}"
    unfolding d2 by (auto simp: set_delete image_iff)
  have e2: "{k. (k, 0) \<in> set (board ?s2)} = {k. (k, 0) \<in> set (board s)} - {key}"
    unfolding b2 using m(3) by (auto simp: set_update_distinct[OF db])
  from wf have e3: "fst ` set (domain s) = {k. (k, 0) \<in> set (board s)}"
    unfolding wf_state_def empties_tracked_def zero_cells by (elim conjE)
  have "empties_tracked ?s2"
    unfolding empties_tracked_def zero_cells e1 e2 e3 by (rule refl)
  with wb2 wd2 show "wf_state ?s2" by (simp add: wf_state_def)
  show "evolves s ?s2"
    unfolding evolves_def
  proof (intro conjI ballI impI)
    fix kv assume kv: "kv \<in> set (board s)" "snd kv \<noteq> 0"
    from wf_state_nonzero_other[OF wf u kv] kv(1) show "kv \<in> set (board ?s2)"
      unfolding b2 by (simp add: set_update_distinct[OF db])
  next
    show "set (unresolved ?s2) \<subseteq> set (unresolved s)"
      unfolding u2 by (rule set_remove1_subset)
  next
    fix kd' assume "kd' \<in> set (domain ?s2)"
    then have "kd' \<in> set (domain s)" unfolding d2 by (simp add: set_delete)
    then show "\<exists>kd\<in>set (domain s). fst kd = fst kd' \<and> set (snd kd') \<subseteq> set (snd kd)" by blast
  qed
  from wd show "key \<notin> set (unresolved ?s2)"
    unfolding u2 by (simp add: wf_domain_def)
qed


subsection \<open>Propagation keeps states well-formed and raises nothing\<close>

lemma make_moves_for_wf:
  assumes "wf_state s" "key \<in> set (unresolved s)" "set ks \<subseteq> set keys"
  shows "\<exists>r. make_moves_for key ks s c = Inr r \<and>
           (case r of
              Returned s' \<Rightarrow> wf_state s' \<and> evolves s s' \<and> key \<notin> set (unresolved s')
            | Fell_through s' c' \<Rightarrow>
                wf_state s' \<and> evolves s s' \<and> key \<in> set (unresolved s') \<and> board s' = board s)"
  using assms
proof (induction ks arbitrary: s c)
  case Nil
  then show ?case by (simp add: evolves_refl)
next
  case (Cons k ks)
  from Cons.prems have wf: "wf_state s" and u: "key \<in> set (unresolved s)"
    and k: "k \<in> set keys" and ks: "set ks \<subseteq> set keys" by simp_all
  from wf have "wf_board (board s)" by (simp add: wf_state_def)
  from wf_board_lookup[OF this k] obtain v where v: "map_of (board s) k = Some v" by blast
  from wf_state_unresolved(3)[OF wf u] obtain d where d: "map_of (domain s) key = Some d"
    by (cases "map_of (domain s) key") (auto simp: map_of_eq_None_iff)
  show ?case
  proof (cases "v \<noteq> 0 \<and> v \<in> set d")
    case False
    with v d have "make_moves_for key (k # ks) s c = make_moves_for key ks s c" by auto
    with Cons.IH[OF wf u ks, of c] show ?thesis by simp
  next
    case True
    then have v0: "v \<noteq> 0" and vd: "v \<in> set d" by simp_all
    let ?s1 = "s\<lparr>domain := AList.update key (remove1 v d) (domain s)\<rparr>"
    show ?thesis
    proof (cases "length (remove1 v d) = 1")
      case True
      then obtain c0 where c0: "remove1 v d = [c0]"
        by (cases "remove1 v d") auto
      then have c0d: "c0 \<in> set d"
        using set_remove1_subset[of v d] by auto
      from v d v0 vd True commit_step[OF wf u d vd c0]
      have "make_moves_for key (k # ks) s c = Inr (Returned (committed key c0 s))"
        by (simp add: Let_def)
      with committed_wf[OF wf u d c0d] show ?thesis by simp
    next
      case False
      note r = remove_step[OF wf d vd False]
      from u have u1: "key \<in> set (unresolved ?s1)" by simp
      from v d v0 vd False
      have e: "make_moves_for key (k # ks) s c = make_moves_for key ks ?s1 True"
        by (simp add: Let_def)
      from Cons.IH[OF r(1) u1 ks, of True] obtain r' where
        r': "make_moves_for key ks ?s1 True = Inr r'"
        and p: "case r' of
              Returned s' \<Rightarrow> wf_state s' \<and> evolves ?s1 s' \<and> key \<notin> set (unresolved s')
            | Fell_through s' c' \<Rightarrow>
                wf_state s' \<and> evolves ?s1 s' \<and> key \<in> set (unresolved s') \<and> board s' = board ?s1"
        by blast
      show ?thesis
      proof (cases r')
        case (Returned s')
        with p r(2) e r' show ?thesis by (auto intro: evolves_trans)
      next
        case (Fell_through s' c')
        with p r(2) e r' show ?thesis by (auto intro: evolves_trans)
      qed
    qed
  qed
qed

lemma make_moves_while_wf:
  "wf_state s \<Longrightarrow> key \<in> set (unresolved s) \<Longrightarrow> set cl \<subseteq> set keys \<Longrightarrow>
     \<exists>b s'. make_moves_while key cl s hc = Inr (b, s') \<and> wf_state s' \<and> evolves s s'"
proof (induction key cl s hc rule: make_moves_while.induct)
  case (1 key cl s hc)
  from make_moves_for_wf[OF "1.prems", of False] obtain r where
    r: "make_moves_for key cl s False = Inr r"
    and p: "case r of
              Returned s' \<Rightarrow> wf_state s' \<and> evolves s s' \<and> key \<notin> set (unresolved s')
            | Fell_through s' c' \<Rightarrow>
                wf_state s' \<and> evolves s s' \<and> key \<in> set (unresolved s') \<and> board s' = board s"
    by blast
  show ?case
  proof (cases r)
    case (Returned s1)
    with r p show ?thesis
      by (subst make_moves_while.simps) auto
  next
    case (Fell_through s1 c)
    show ?thesis
    proof (cases c)
      case True
      from p Fell_through have w1: "wf_state s1" and e1: "evolves s s1"
        and u1: "key \<in> set (unresolved s1)" by simp_all
      from "1.IH"[OF r Fell_through True w1 u1 "1.prems"(3)] obtain b s' where
        "make_moves_while key cl s1 True = Inr (b, s')" "wf_state s'" "evolves s1 s'" by blast
      with r Fell_through True e1 show ?thesis
        by (subst make_moves_while.simps) (auto intro: evolves_trans)
    next
      case False
      with r p Fell_through show ?thesis
        by (subst make_moves_while.simps) simp
    qed
  qed
qed

lemma make_moves_wf:
  "wf_state s \<Longrightarrow> key \<in> set (unresolved s) \<Longrightarrow> set cl \<subseteq> set keys \<Longrightarrow>
     \<exists>b s'. make_moves key cl s = Inr (b, s') \<and> wf_state s' \<and> evolves s s'"
  unfolding make_moves_def by (rule make_moves_while_wf)

lemma ac3_sweep_wf:
  "wf_state s \<Longrightarrow> \<forall>p\<in>set ps. set (snd p) \<subseteq> set keys \<Longrightarrow>
     \<exists>b s'. ac3_sweep ps s hc = Inr (b, s') \<and> wf_state s' \<and> evolves s s'"
proof (induction ps s hc rule: ac3_sweep.induct)
  case (1 s hc)
  then show ?case by (simp add: evolves_refl)
next
  case (2 key cl rest s hc)
  from "2.prems" have cl: "set cl \<subseteq> set keys" and rest: "\<forall>p\<in>set rest. set (snd p) \<subseteq> set keys"
    by simp_all
  show ?case
  proof (cases "key \<in> set (unresolved s)")
    case False
    with "2.IH"(3)[OF False "2.prems"(1) rest] show ?thesis by simp
  next
    case True
    show ?thesis
    proof (cases hc)
      case True
      with \<open>key \<in> set (unresolved s)\<close> "2.IH"(1)[OF _ True "2.prems"(1) rest] show ?thesis
        by simp
    next
      case False
      from make_moves_wf[OF "2.prems"(1) True cl] obtain b1 s1 where
        m: "make_moves key cl s = Inr (b1, s1)" and w1: "wf_state s1" and e1: "evolves s s1"
        by blast
      from "2.IH"(2)[OF True False m refl w1 rest] obtain b s' where
        "ac3_sweep rest s1 b1 = Inr (b, s')" "wf_state s'" "evolves s1 s'" by blast
      with True False m e1 show ?thesis by (auto intro: evolves_trans)
    qed
  qed
qed

lemma sweep_order_keys: "\<forall>p\<in>set sweep_order. set (snd p) \<subseteq> set keys"
  using sweep_order_ok groups_subset by fastforce

lemma ac3_wf: "wf_state s \<Longrightarrow> \<exists>s'. ac3 s = Inr s' \<and> wf_state s' \<and> evolves s s'"
proof (induction s rule: ac3.induct)
  case (1 s)
  from ac3_sweep_wf[OF "1.prems" sweep_order_keys, of False] obtain hc s1 where
    sw: "ac3_sweep sweep_order s False = Inr (hc, s1)" and w1: "wf_state s1"
    and e1: "evolves s s1" by blast
  show ?case
  proof (cases hc)
    case True
    from "1.IH"[OF sw refl True w1] obtain s' where
      "ac3 s1 = Inr s'" "wf_state s'" "evolves s1 s'" by blast
    with sw True e1 show ?thesis
      by (subst ac3.simps) (auto intro: evolves_trans)
  next
    case False
    with sw w1 e1 show ?thesis
      by (subst ac3.simps) simp
  qed
qed

section \<open>Boards read from digit sequences\<close>

text \<open>
  The dictionary comprehension of the main program,
  \<open>{ROW[r] + COL[c]: int(line[9*r+c]) for r in range(9) for c in range(9)}\<close>,
  applied to the sequence of the 81 integers already read from the line.
\<close>

definition parse_board :: "int list \<Rightarrow> board" where
  "parse_board ds = zip keys ds"

lemma length_keys: "length keys = 81"
  by (simp add: keys_def ROW_def COL_def)

lemma parse_board_fst: "length ds = 81 \<Longrightarrow> map fst (parse_board ds) = keys"
  by (simp add: parse_board_def length_keys)

lemma parse_board_snd: "length ds = 81 \<Longrightarrow> map snd (parse_board ds) = ds"
  by (simp add: parse_board_def length_keys)


lemma wf_grid_parse:
  assumes "length ds = 81" "\<forall>v\<in>set ds. 0 \<le> v \<and> v \<le> 9"
  shows "wf_grid (parse_board ds)"
proof -
  have "fst ` set (parse_board ds) = set (map fst (parse_board ds))" by simp
  moreover have "snd ` set (parse_board ds) = set (map snd (parse_board ds))" by simp
  ultimately show ?thesis
    unfolding wf_grid_def
    using assms distinct_keys
    by (simp only: parse_board_fst[OF assms(1)] parse_board_snd[OF assms(1)])
qed

section \<open>The commit of the last candidate\<close>

definition peer_holds :: "board \<Rightarrow> string \<Rightarrow> int \<Rightarrow> bool" where
  "peer_holds b key v \<longleftrightarrow>
     (\<exists>g\<in>set all_groups. key \<in> set g \<and> (\<exists>k\<in>set g. k \<noteq> key \<and> map_of b k = Some v))"

lemma group_holds_peer:
  assumes "wf_state s" "key \<in> set (unresolved s)" "v \<noteq> 0"
  shows "group_holds (board s) key v = peer_holds (board s) key v"
proof -
  from wf_state_unresolved(1)[OF assms(1,2)] assms(1)
  have "map_of (board s) key = Some 0"
    by (simp add: wf_state_def wf_board_def)
  with assms(3) have "\<And>k. map_of (board s) k = Some v \<Longrightarrow> k \<noteq> key" by auto
  then show ?thesis
    by (auto simp: group_holds_def peer_holds_def)
qed

lemma map_of_update_other: "k' \<noteq> k \<Longrightarrow> map_of (AList.update k v al) k' = map_of al k'"
  by (simp add: update_conv')

section \<open>What a call of make_moves does\<close>

text \<open>The candidates in \<open>d\<close> that no cell of the group \<open>cl\<close> holds on the board \<open>b\<close>.\<close>

definition unheld :: "board \<Rightarrow> string list \<Rightarrow> int list \<Rightarrow> int list" where
  "unheld b cl d = filter (\<lambda>x. \<forall>k\<in>set cl. map_of b k \<noteq> Some x) d"

lemma unheld_Nil: "unheld b [] d = d"
  by (simp add: unheld_def)

lemma unheld_Cons:
  "map_of b k = Some v \<Longrightarrow> unheld b (k # ks) d = unheld b ks (filter (\<lambda>x. x \<noteq> v) d)"
  by (auto simp: unheld_def intro: filter_cong)

lemma unheld_idem: "unheld b cl (unheld b cl d) = unheld b cl d"
  by (simp add: unheld_def)

lemma unheld_subset: "set (unheld b cl d) \<subseteq> set d"
  by (auto simp: unheld_def)

lemma filter_neq_absent: "v \<notin> set d \<Longrightarrow> filter (\<lambda>x. x \<noteq> v) d = d"
  by (induction d) auto

lemma remove1_filter: "distinct d \<Longrightarrow> remove1 v d = filter (\<lambda>x. x \<noteq> v) d"
  by (induction d) (auto simp: filter_neq_absent)

lemma update_same_state:
  "map_of (domain s) key = Some d \<Longrightarrow> s\<lparr>domain := AList.update key d (domain s)\<rparr> = s"
  by (simp add: update_triv)

lemma committed_after_removal:
  "committed key c (s\<lparr>domain := AList.update key d' (domain s)\<rparr>) = committed key c s"
  by (simp add: committed_def delete_update_same)

lemma make_moves_for_result:
  assumes "wf_state s" "key \<in> set (unresolved s)" "set ks \<subseteq> set keys"
    "map_of (domain s) key = Some d"
  shows "(2 \<le> length (unheld (board s) ks d) \<longrightarrow>
           make_moves_for key ks s c =
             Inr (Fell_through (s\<lparr>domain := AList.update key (unheld (board s) ks d) (domain s)\<rparr>)
                    (c \<or> unheld (board s) ks d \<noteq> d))) \<and>
         (length (unheld (board s) ks d) < 2 \<longrightarrow>
           (\<exists>c0\<in>set d. set (unheld (board s) ks d) \<subseteq> {c0} \<and>
              make_moves_for key ks s c = Inr (Returned (committed key c0 s))))"
  using assms
proof (induction ks arbitrary: s d c)
  case Nil
  from Nil.prems(1) map_of_SomeD[OF Nil.prems(4)] have "2 \<le> length d"
    by (force simp: wf_state_def wf_domain_def)
  with Nil.prems(4) show ?case
    by (simp add: unheld_Nil update_same_state)
next
  case (Cons k ks)
  from Cons.prems have wf: "wf_state s" and u: "key \<in> set (unresolved s)"
    and k: "k \<in> set keys" and ks: "set ks \<subseteq> set keys"
    and d: "map_of (domain s) key = Some d" by simp_all
  from wf have "wf_board (board s)" by (simp add: wf_state_def)
  from wf_board_lookup[OF this k] obtain v where v: "map_of (board s) k = Some v" by blast
  from wf map_of_SomeD[OF d] have dd: "distinct d" "set d \<subseteq> {1..9}" "2 \<le> length d"
    by (force simp: wf_state_def wf_domain_def)+
  note uc = unheld_Cons[OF v, of ks d]
  show ?case
  proof (cases "v \<noteq> 0 \<and> v \<in> set d")
    case False
    with dd(2) have "v \<notin> set d" by auto
    then have same: "unheld (board s) (k # ks) d = unheld (board s) ks d"
      by (simp add: uc filter_neq_absent)
    from False v d have "make_moves_for key (k # ks) s c = make_moves_for key ks s c" by auto
    with Cons.IH[OF wf u ks d, of c] same show ?thesis by simp
  next
    case True
    then have v0: "v \<noteq> 0" and vd: "v \<in> set d" by simp_all
    let ?d' = "remove1 v d"
    let ?s1 = "s\<lparr>domain := AList.update key ?d' (domain s)\<rparr>"
    have d': "?d' = filter (\<lambda>x. x \<noteq> v) d" by (rule remove1_filter[OF dd(1)])
    have un: "unheld (board s) (k # ks) d = unheld (board s) ks ?d'"
      by (simp add: uc d')
    have sub': "set ?d' \<subseteq> set d" by (rule set_remove1_subset)
    show ?thesis
    proof (cases "length ?d' = 1")
      case True
      then obtain c0 where c0: "?d' = [c0]" by (cases ?d') auto
      with sub' have c0d: "c0 \<in> set d" by auto
      from unheld_subset[of "board s" ks ?d'] c0
      have s1: "set (unheld (board s) ks ?d') \<subseteq> {c0}" by simp
      from v d v0 vd True commit_step[OF wf u d vd c0]
      have "make_moves_for key (k # ks) s c = Inr (Returned (committed key c0 s))"
        by (simp add: Let_def)
      moreover have "length (unheld (board s) ks ?d') < 2"
        using c0 by (simp add: unheld_def)
      ultimately show ?thesis using c0d s1 by (auto simp: un)
    next
      case False
      note r = remove_step[OF wf d vd False]
      from u have u1: "key \<in> set (unresolved ?s1)" by simp
      have d1: "map_of (domain ?s1) key = Some ?d'" by (simp add: map_of_update_same)
      have b1: "board ?s1 = board s" by simp
      from v d v0 vd False
      have e: "make_moves_for key (k # ks) s c = make_moves_for key ks ?s1 True"
        by (simp add: Let_def)
      note ih = Cons.IH[OF r(1) u1 ks d1, of True, unfolded b1 committed_after_removal]
      let ?U = "unheld (board s) ks ?d'"
      have "v \<notin> set ?U" using unheld_subset[of "board s" ks ?d'] dd(1) by (auto simp: d')
      with vd have ne: "?U \<noteq> d" by auto
      have st: "?s1\<lparr>domain := AList.update key ?U (domain ?s1)\<rparr>
                 = s\<lparr>domain := AList.update key ?U (domain s)\<rparr>" by simp
      have 1: "2 \<le> length ?U \<longrightarrow>
           make_moves_for key (k # ks) s c =
             Inr (Fell_through (s\<lparr>domain := AList.update key ?U (domain s)\<rparr>) (c \<or> ?U \<noteq> d))"
        using ih e ne st by simp
      have 2: "length ?U < 2 \<longrightarrow>
           (\<exists>c0\<in>set d. set ?U \<subseteq> {c0} \<and>
              make_moves_for key (k # ks) s c = Inr (Returned (committed key c0 s)))"
        using ih e sub' by auto
      from 1 2 show ?thesis by (simp only: un) 
    qed
  qed
qed

lemma make_moves_result:
  assumes wf: "wf_state s" and u: "key \<in> set (unresolved s)" and cl: "set cl \<subseteq> set keys"
    and d: "map_of (domain s) key = Some d"
  shows "(2 \<le> length (unheld (board s) cl d) \<longrightarrow>
           make_moves key cl s =
             Inr (unheld (board s) cl d \<noteq> d,
                  s\<lparr>domain := AList.update key (unheld (board s) cl d) (domain s)\<rparr>)) \<and>
         (length (unheld (board s) cl d) < 2 \<longrightarrow>
           (\<exists>c0\<in>set d. set (unheld (board s) cl d) \<subseteq> {c0} \<and>
              make_moves key cl s = Inr (False, committed key c0 s)))"
proof -
  let ?U = "unheld (board s) cl d"
  let ?s1 = "s\<lparr>domain := AList.update key ?U (domain s)\<rparr>"
  note first = make_moves_for_result[OF wf u cl d, of False]
  have a: "2 \<le> length ?U \<longrightarrow> make_moves key cl s = Inr (?U \<noteq> d, ?s1)"
  proof
    assume len: "2 \<le> length ?U"
    with first have f: "make_moves_for key cl s False = Inr (Fell_through ?s1 (?U \<noteq> d))"
      by simp
    show "make_moves key cl s = Inr (?U \<noteq> d, ?s1)"
    proof (cases "?U = d")
      case True
      with f show ?thesis
        unfolding make_moves_def by (subst make_moves_while.simps) simp
    next
      case False
      from make_moves_for_wf[OF wf u cl, of False] f
      have w1: "wf_state ?s1" and u1: "key \<in> set (unresolved ?s1)" by auto
      have d1: "map_of (domain ?s1) key = Some ?U" by (simp add: map_of_update_same)
      have b1: "board ?s1 = board s" by simp
      from make_moves_for_result[OF w1 u1 cl d1, of False, unfolded b1 unheld_idem] len
      have "make_moves_for key cl ?s1 False
              = Inr (Fell_through (?s1\<lparr>domain := AList.update key ?U (domain ?s1)\<rparr>) False)"
        by simp
      then have g: "make_moves_for key cl ?s1 False = Inr (Fell_through ?s1 False)"
        by simp
      have "make_moves_while key cl ?s1 True = Inr (True, ?s1)"
        by (subst make_moves_while.simps) (simp add: g)
      with f False show ?thesis
        unfolding make_moves_def by (subst make_moves_while.simps) simp
    qed
  qed
  have b: "length ?U < 2 \<longrightarrow>
           (\<exists>c0\<in>set d. set ?U \<subseteq> {c0} \<and> make_moves key cl s = Inr (False, committed key c0 s))"
  proof
    assume "length ?U < 2"
    with first obtain c0 where "c0 \<in> set d" "set ?U \<subseteq> {c0}"
      and f: "make_moves_for key cl s False = Inr (Returned (committed key c0 s))" by blast
    moreover from f have "make_moves key cl s = Inr (False, committed key c0 s)"
      unfolding make_moves_def by (subst make_moves_while.simps) simp
    ultimately show "\<exists>c0\<in>set d. set ?U \<subseteq> {c0} \<and>
        make_moves key cl s = Inr (False, committed key c0 s)" by blast
  qed
  from a b show ?thesis by blast
qed


text \<open>
  C4. A call of \<open>make_moves\<close> for an unresolved key and one of the groups that contain it,
  in a well-formed state, returns without raising. If at least two candidates of the key
  are held by no cell of the group, these are left in its domain and nothing else changes.
  Otherwise the loop reduces the domain to exactly one candidate \<open>c\<close> (the one that no cell
  of the group holds, or, if every candidate is held, one that a peer holds) and commits it:
  the board gets \<open>c\<close> at the key, or -1 if another cell of a group containing the key
  holds \<open>c\<close>; no other cell changes; the key leaves \<open>unresolved\<close> and \<open>domain\<close>; the call
  returns \<open>False\<close>.
\<close>

theorem make_moves_commits_last_candidate:
  assumes "wf_state s" and "key \<in> set (unresolved s)"
    and "cl \<in> set all_groups" and "key \<in> set cl"
    and "map_of (domain s) key = Some d"
  shows "(2 \<le> length (unheld (board s) cl d) \<longrightarrow>
           make_moves key cl s =
             Inr (unheld (board s) cl d \<noteq> d,
                  s\<lparr>domain := AList.update key (unheld (board s) cl d) (domain s)\<rparr>)) \<and>
         (length (unheld (board s) cl d) < 2 \<longrightarrow>
           (\<exists>c\<in>set d. set (unheld (board s) cl d) \<subseteq> {c} \<and>
              (unheld (board s) cl d = [] \<longrightarrow> peer_holds (board s) key c) \<and>
              make_moves key cl s =
                Inr (False,
                     s\<lparr>board := AList.update key
                                  (if peer_holds (board s) key c then - 1 else c) (board s),
                       unresolved := remove1 key (unresolved s),
                       domain := AList.delete key (domain s)\<rparr>)))"
proof -
  let ?U = "unheld (board s) cl d"
  note r = make_moves_result[OF assms(1,2) groups_subset[OF assms(3)] assms(5)]
  from assms(1) map_of_SomeD[OF assms(5)] have dd: "set d \<subseteq> {1..9}"
    by (force simp: wf_state_def wf_domain_def)
  from wf_state_unresolved(1)[OF assms(1,2)] assms(1)
  have zero: "map_of (board s) key = Some 0"
    by (simp add: wf_state_def wf_board_def)
  have "length ?U < 2 \<longrightarrow>
           (\<exists>c\<in>set d. set ?U \<subseteq> {c} \<and> (?U = [] \<longrightarrow> peer_holds (board s) key c) \<and>
              make_moves key cl s =
                Inr (False,
                     s\<lparr>board := AList.update key
                                  (if peer_holds (board s) key c then - 1 else c) (board s),
                       unresolved := remove1 key (unresolved s),
                       domain := AList.delete key (domain s)\<rparr>))"
  proof
    assume "length ?U < 2"
    with r obtain c where cd: "c \<in> set d" and su: "set ?U \<subseteq> {c}"
      and m: "make_moves key cl s = Inr (False, committed key c s)" by blast
    from cd dd have c0: "c \<noteq> 0" by auto
    have p: "?U = [] \<longrightarrow> peer_holds (board s) key c"
    proof
      assume "?U = []"
      with cd have "\<not> (\<forall>k\<in>set cl. map_of (board s) k \<noteq> Some c)"
        by (auto simp: unheld_def filter_empty_conv)
      then obtain k where k: "k \<in> set cl" "map_of (board s) k = Some c" by blast
      with zero c0 have "k \<noteq> key" by auto
      with k assms(3,4) show "peer_holds (board s) key c"
        unfolding peer_holds_def by blast
    qed
    from m have "make_moves key cl s =
                Inr (False,
                     s\<lparr>board := AList.update key
                                  (if peer_holds (board s) key c then - 1 else c) (board s),
                       unresolved := remove1 key (unresolved s),
                       domain := AList.delete key (domain s)\<rparr>)"
      by (simp add: committed_def group_holds_peer[OF assms(1,2) c0])
    with cd su p show "\<exists>c\<in>set d. set ?U \<subseteq> {c} \<and> (?U = [] \<longrightarrow> peer_holds (board s) key c) \<and>
              make_moves key cl s =
                Inr (False,
                     s\<lparr>board := AList.update key
                                  (if peer_holds (board s) key c then - 1 else c) (board s),
                       unresolved := remove1 key (unresolved s),
                       domain := AList.delete key (domain s)\<rparr>)" by blast
  qed
  with r show ?thesis by blast
qed




section \<open>The state built by the constructor\<close>

lemma update_absent: "k \<notin> fst ` set al \<Longrightarrow> AList.update k v al = al @ [(k, v)]"
  by (induction al) auto

lemma init_domain_result:
  assumes "set locs \<subseteq> fst ` set b" "distinct locs" "set locs \<inter> fst ` set d = {}"
  shows "init_domain b locs d u =
           Inr (d @ map (\<lambda>k. (k, [1, 2, 3, 4, 5, 6, 7, 8, 9]))
                        (filter (\<lambda>k. map_of b k = Some 0) locs),
                u @ filter (\<lambda>k. map_of b k = Some 0) locs)"
  using assms
proof (induction locs arbitrary: d u)
  case Nil
  then show ?case by simp
next
  case (Cons loc locs)
  from Cons.prems obtain v where v: "map_of b loc = Some v"
    by (cases "map_of b loc") (auto simp: map_of_eq_None_iff)
  from Cons.prems have a: "set locs \<subseteq> fst ` set b" "distinct locs" "loc \<notin> set locs"
    "loc \<notin> fst ` set d" "set locs \<inter> fst ` set d = {}" by auto
  show ?case
  proof (cases "v = 0")
    case True
    let ?d = "AList.update loc [1, 2, 3, 4, 5, 6, 7, 8, 9] d"
    from a have "set locs \<inter> fst ` set ?d = {}" by (auto simp: dom_update)
    from Cons.IH[OF a(1,2) this, of "u @ [loc]"] v True a(4) show ?thesis
      by (simp add: update_absent)
  next
    case False
    with Cons.IH[OF a(1,2,5), of u] v show ?thesis by simp
  qed
qed

definition empty_cells :: "board \<Rightarrow> string list" where
  "empty_cells b = filter (\<lambda>k. map_of b k = Some 0) keys"

lemma Sudoku_init_result:
  assumes "wf_grid b"
  shows "Sudoku_init b =
     Inr \<lparr>board = b, guess_list = [],
          domain = map (\<lambda>k. (k, [1, 2, 3, 4, 5, 6, 7, 8, 9])) (empty_cells b),
          unresolved = empty_cells b\<rparr>"
proof -
  from assms have "set keys \<subseteq> fst ` set b" by (simp add: wf_grid_def)
  from init_domain_result[OF this distinct_keys, of "[]" "[]"] show ?thesis
    by (simp add: Sudoku_init_def empty_cells_def)
qed

lemma wf_grid_board: "wf_grid b \<Longrightarrow> wf_board b"
  by (auto simp: wf_grid_def wf_board_def)

lemma Sudoku_init_wf:
  assumes "wf_grid g" "Sudoku_init g = Inr b"
  shows "wf_state b" and "board b = g"
proof -
  from Sudoku_init_result[OF assms(1)] assms(2)
  have b: "b = \<lparr>board = g, guess_list = [],
          domain = map (\<lambda>k. (k, [1, 2, 3, 4, 5, 6, 7, 8, 9])) (empty_cells g),
          unresolved = empty_cells g\<rparr>" by simp
  then show "board b = g" by simp
  have dk: "distinct (empty_cells g)"
    using distinct_keys by (simp add: empty_cells_def)
  have fk: "map fst (domain b) = empty_cells g"
    by (simp add: b comp_def)
  have "wf_domain b"
    unfolding wf_domain_def
  proof (intro conjI ballI)
    show "distinct (map fst (domain b))" by (simp add: fk dk)
    show "distinct (unresolved b)" by (simp add: b dk)
    have "fst ` set (domain b) = set (map fst (domain b))" by simp
    then show "fst ` set (domain b) = set (unresolved b)" by (simp only: fk) (simp add: b)
  next
    fix d assume "d \<in> snd ` set (domain b)"
    then have d: "d = [1, 2, 3, 4, 5, 6, 7, 8, 9]" by (auto simp: b)
    show "distinct d" by (simp add: d)
    show "set d \<subseteq> {1..9}" by (simp add: d)
    show "2 \<le> length d" by (simp add: d)
  qed
  moreover have "empties_tracked b"
  proof -
    from assms(1) have dg: "distinct (map fst g)" and kg: "fst ` set g = set keys"
      by (simp_all add: wf_grid_def)
    have "fst ` set (domain b) = set (map fst (domain b))" by simp
    then have "fst ` set (domain b) = set (empty_cells g)" by (simp only: fk)
    also have "\<dots> = {k. (k, 0) \<in> set g}"
    proof -
      have "\<And>k. (k, 0) \<in> set g \<Longrightarrow> k \<in> set keys"
        using kg by force
      then show ?thesis
        using dg by (auto simp: empty_cells_def)
    qed
    finally show ?thesis
      unfolding empties_tracked_def zero_cells by (simp add: b)
  qed
  ultimately show "wf_state b"
    using wf_grid_board[OF assms(1)] by (simp add: wf_state_def b)
qed


section \<open>What is_solved checks\<close>

definition vals :: "board \<Rightarrow> string list \<Rightarrow> int list" where
  "vals b g = map (\<lambda>k. the (map_of b k)) g"

lemma check_group_result:
  "set g \<subseteq> fst ` set b \<Longrightarrow>
     check_group b g seen = Inr (distinct (vals b g) \<and> set (vals b g) \<inter> seen = {})"
proof (induction g arbitrary: seen)
  case Nil
  then show ?case by (simp add: vals_def)
next
  case (Cons k g)
  then obtain v where v: "map_of b k = Some v"
    by (cases "map_of b k") (auto simp: map_of_eq_None_iff)
  from Cons.prems have "set g \<subseteq> fst ` set b" by simp
  from Cons.IH[OF this, of "insert v seen"] v show ?case
    by (auto simp: vals_def)
qed

lemma check_groups_result:
  "\<forall>g\<in>set gs. set g \<subseteq> fst ` set b \<Longrightarrow>
     check_groups b gs = Inr (\<forall>g\<in>set gs. distinct (vals b g))"
proof (induction gs)
  case Nil
  then show ?case by simp
next
  case (Cons g gs)
  then have "check_group b g {} = Inr (distinct (vals b g))"
    by (simp add: check_group_result)
  with Cons show ?case by (auto split: bool.splits)
qed

lemma is_solved_result:
  assumes "wf_board (board s)"
  shows "is_solved s =
           Inr (0 \<notin> snd ` set (board s) \<and> - 1 \<notin> snd ` set (board s) \<and>
                (\<forall>g\<in>set all_groups. distinct (vals (board s) g)))"
proof -
  from assms have "\<forall>g\<in>set all_groups. set g \<subseteq> fst ` set (board s)"
    using groups_subset by (auto simp: wf_board_def)
  from check_groups_result[OF this] show ?thesis
    by (auto simp: is_solved_def is_incomplete_def)
qed

lemma status_of_result:
  assumes "wf_board (board s)"
  shows "status_of s =
     Inr (if 0 \<notin> snd ` set (board s) \<and> - 1 \<notin> snd ` set (board s) \<and>
             (\<forall>g\<in>set all_groups. distinct (vals (board s) g)) then Solved
          else if 0 \<in> snd ` set (board s) then Incomplete else Invalid)"
  by (auto simp: status_of_def is_solved_result[OF assms] is_incomplete_def split: bool.splits)

lemma distinct_group_digits:
  assumes wb: "wf_board b" and z: "0 \<notin> snd ` set b" and m: "- 1 \<notin> snd ` set b"
    and g: "g \<in> set all_groups" and dv: "distinct (vals b g)" and d: "d \<in> {1..9}"
  shows "length (filter (\<lambda>k. map_of b k = Some d) g) = 1"
proof -
  have look: "\<And>k. k \<in> set g \<Longrightarrow> \<exists>v. map_of b k = Some v \<and> v \<in> {1..9}"
  proof -
    fix k assume "k \<in> set g"
    with groups_subset[OF g] have "k \<in> set keys" by auto
    from wf_board_lookup[OF wb this] obtain v where v: "map_of b k = Some v" "- 1 \<le> v" "v \<le> 9"
      by blast
    from map_of_SomeD[OF v(1)] have "v \<in> snd ` set b" by force
    with z m have "v \<noteq> 0" "v \<noteq> - 1" by blast+
    with v show "\<exists>v. map_of b k = Some v \<and> v \<in> {1..9}" by auto
  qed
  have sub: "set (vals b g) \<subseteq> {1..9}"
  proof
    fix x assume "x \<in> set (vals b g)"
    then obtain k where "k \<in> set g" "x = the (map_of b k)" by (auto simp: vals_def)
    with look[of k] show "x \<in> {1..9}" by auto
  qed
  have "card (set (vals b g)) = length (vals b g)"
    using dv by (rule distinct_card)
  also have "\<dots> = 9"
    using groups_length[OF g] by (simp add: vals_def)
  finally have "card (set (vals b g)) = 9" .
  moreover have "card {1..9::int} = 9" by simp
  ultimately have "set (vals b g) = {1..9}"
    using sub by (intro card_subset_eq) simp_all
  with d have din: "d \<in> set (vals b g)" by simp
  have "filter (\<lambda>x. x = d) (vals b g) = map (\<lambda>k. the (map_of b k)) (filter (\<lambda>k. map_of b k = Some d) g)"
    unfolding vals_def filter_map comp_def
    by (rule arg_cong[where f="map _"], rule filter_cong) (use look in force)+
  then have "length (filter (\<lambda>k. map_of b k = Some d) g) = length (filter (\<lambda>x. x = d) (vals b g))"
    by simp
  also have "\<dots> = card ({x. x = d} \<inter> set (vals b g))"
    using dv by (rule distinct_length_filter)
  also have "{x. x = d} \<inter> set (vals b g) = {d}" using din by auto
  finally show ?thesis by simp
qed

section \<open>Selection of the next cell\<close>

definition resolved :: "string \<Rightarrow> int \<Rightarrow> sudoku \<Rightarrow> sudoku" where
  "resolved key m s =
     s\<lparr>board := AList.update key m (board s),
       unresolved := remove1 key (unresolved s),
       domain := AList.delete key (domain s)\<rparr>"

lemma committed_resolved:
  "committed key c s = resolved key (if group_holds (board s) key c then - 1 else c) s"
  by (simp add: committed_def resolved_def)

lemma wf_state_guess_list: "wf_state (s\<lparr>guess_list := gl\<rparr>) = wf_state s"
  by (simp add: wf_state_def wf_domain_def empties_tracked_def)

lemma evolves_guess_list: "evolves s (s'\<lparr>guess_list := gl\<rparr>) = evolves s s'"
  by (simp add: evolves_def)

lemma select_guess_result:
  assumes wf: "wf_state s" and inc: "is_incomplete s"
  shows "\<exists>key vs gl. select_guess s
           = Inr (key, vs, s\<lparr>guess_list := gl,
                             domain := AList.delete key (domain s),
                             unresolved := remove1 key (unresolved s)\<rparr>) \<and>
           map_of (domain s) key = Some vs \<and> key \<in> set (unresolved s) \<and>
           (\<forall>kd\<in>set (domain s). (length vs, key) \<le> (length (snd kd), fst kd))"
proof -
  let ?pairs = "map (\<lambda>(key, value). (length value, key)) (domain s)"
  from inc obtain k0 where "(k0, 0) \<in> set (board s)"
    by (auto simp: is_incomplete_def)
  with wf have "k0 \<in> fst ` set (domain s)" by (simp add: wf_state_domain_iff)
  then have "domain s \<noteq> []" by auto
  then have "sort ?pairs \<noteq> []"
    by (metis length_0_conv length_map length_sort)
  then obtain p gl where pg: "sort ?pairs = p # gl" by (cases "sort ?pairs") auto
  have "sorted (sort ?pairs)" by simp
  with pg have le: "\<forall>q\<in>set gl. p \<le> q" by simp
  have "set (sort ?pairs) = set ?pairs" by simp
  with pg have sp: "insert p (set gl) = set ?pairs" by simp
  then have "p \<in> set ?pairs" by blast
  then obtain vs where kv: "(snd p, vs) \<in> set (domain s)" and p: "p = (length vs, snd p)"
    by auto
  from wf have dd: "distinct (map fst (domain s))" by (simp add: wf_state_def wf_domain_def)
  with kv have m: "map_of (domain s) (snd p) = Some vs" by simp
  from kv have "snd p \<in> fst ` set (domain s)" by force
  with wf have u: "snd p \<in> set (unresolved s)" by (simp add: wf_state_def wf_domain_def)
  have "\<forall>kd\<in>set (domain s). (length vs, snd p) \<le> (length (snd kd), fst kd)"
  proof
    fix kd assume "kd \<in> set (domain s)"
    then have "(length (snd kd), fst kd) \<in> set ?pairs" by force
    with sp have "(length (snd kd), fst kd) = p \<or> (length (snd kd), fst kd) \<in> set gl" by blast
    with le p show "(length vs, snd p) \<le> (length (snd kd), fst kd)"
      by (metis order_refl)
  qed
  with pg m u show ?thesis
    by (intro exI[of _ "snd p"] exI[of _ vs] exI[of _ gl]) (simp add: select_guess_def)
qed


lemma resolved_wf:
  assumes wf: "wf_state s" and u: "key \<in> set (unresolved s)"
    and m: "- 1 \<le> m" "m \<le> 9" "m \<noteq> 0"
  shows "wf_state (resolved key m s)" and "evolves s (resolved key m s)"
proof -
  let ?s2 = "resolved key m s"
  note ku = wf_state_unresolved[OF wf u]
  from wf have db: "distinct (map fst (board s))" by (simp add: wf_state_def wf_board_def)
  from wf have wb: "wf_board (board s)" by (simp add: wf_state_def)
  have b2: "board ?s2 = AList.update key m (board s)" by (simp add: resolved_def)
  have u2: "unresolved ?s2 = remove1 key (unresolved s)" by (simp add: resolved_def)
  have d2: "domain ?s2 = AList.delete key (domain s)" by (simp add: resolved_def)
  have wb2: "wf_board (board ?s2)"
    unfolding b2 by (rule wf_board_update[OF wb ku(2) m(1,2)])
  from wf have wd: "wf_domain s" by (simp add: wf_state_def)
  have wd2: "wf_domain ?s2"
    using wd unfolding wf_domain_def d2 u2
    by (auto simp: distinct_delete set_delete image_iff)
  have e1: "fst ` set (domain ?s2) = fst ` set (domain s) - {key}"
    unfolding d2 by (auto simp: set_delete image_iff)
  have e2: "{k. (k, 0) \<in> set (board ?s2)} = {k. (k, 0) \<in> set (board s)} - {key}"
    unfolding b2 using m(3) by (auto simp: set_update_distinct[OF db])
  from wf have e3: "fst ` set (domain s) = {k. (k, 0) \<in> set (board s)}"
    unfolding wf_state_def empties_tracked_def zero_cells by (elim conjE)
  have "empties_tracked ?s2"
    unfolding empties_tracked_def zero_cells e1 e2 e3 by (rule refl)
  with wb2 wd2 show "wf_state ?s2" by (simp add: wf_state_def)
  show "evolves s ?s2"
    unfolding evolves_def
  proof (intro conjI ballI impI)
    fix kv assume kv: "kv \<in> set (board s)" "snd kv \<noteq> 0"
    from wf_state_nonzero_other[OF wf u kv] kv(1) show "kv \<in> set (board ?s2)"
      unfolding b2 by (simp add: set_update_distinct[OF db])
  next
    show "set (unresolved ?s2) \<subseteq> set (unresolved s)"
      unfolding u2 by (rule set_remove1_subset)
  next
    fix kd' assume "kd' \<in> set (domain ?s2)"
    then have "kd' \<in> set (domain s)" unfolding d2 by (simp add: set_delete)
    then show "\<exists>kd\<in>set (domain s). fst kd = fst kd' \<and> set (snd kd') \<subseteq> set (snd kd)" by blast
  qed
qed

text \<open>The copy \<open>p\<close> of \<open>self\<close> after \<open>p.board[key] = value\<close>.\<close>

definition branch :: "sudoku \<Rightarrow> string \<Rightarrow> int \<Rightarrow> sudoku" where
  "branch s key v = s\<lparr>board := AList.update key v (board s)\<rparr>"

lemma branch_of_selected:
  "branch (s\<lparr>guess_list := gl, domain := AList.delete key (domain s),
             unresolved := remove1 key (unresolved s)\<rparr>) key v
     = (resolved key v s)\<lparr>guess_list := gl\<rparr>"
  by (simp add: branch_def resolved_def)

lemma branch_wf:
  assumes wf: "wf_state s" and u: "key \<in> set (unresolved s)"
    and d: "map_of (domain s) key = Some vs" and v: "v \<in> set vs"
  shows "wf_state (branch (s\<lparr>guess_list := gl, domain := AList.delete key (domain s),
                              unresolved := remove1 key (unresolved s)\<rparr>) key v)"
    and "evolves s (branch (s\<lparr>guess_list := gl, domain := AList.delete key (domain s),
                              unresolved := remove1 key (unresolved s)\<rparr>) key v)"
proof -
  from wf map_of_SomeD[OF d] have "set vs \<subseteq> {1..9}"
    by (force simp: wf_state_def wf_domain_def)
  with v have m: "- 1 \<le> v" "v \<le> 9" "v \<noteq> 0" by auto
  from resolved_wf[OF wf u m]
  show "wf_state (branch (s\<lparr>guess_list := gl, domain := AList.delete key (domain s),
                              unresolved := remove1 key (unresolved s)\<rparr>) key v)"
    and "evolves s (branch (s\<lparr>guess_list := gl, domain := AList.delete key (domain s),
                              unresolved := remove1 key (unresolved s)\<rparr>) key v)"
    by (simp_all only: branch_of_selected wf_state_guess_list evolves_guess_list)
qed

section \<open>The search raises nothing and returns only solved boards\<close>

definition solved_from :: "sudoku \<Rightarrow> sudoku \<Rightarrow> bool" where
  "solved_from s q \<longleftrightarrow> wf_state q \<and> status_of q = Inr Solved \<and> evolves s q"

lemma solved_from_trans: "evolves s s' \<Longrightarrow> solved_from s' q \<Longrightarrow> solved_from s q"
  by (auto simp: solved_from_def intro: evolves_trans)

lemma status_of_total: "wf_state s \<Longrightarrow> \<exists>st. status_of s = Inr st"
  by (simp add: status_of_result wf_state_def)

lemma status_Incomplete: "status_of s = Inr Incomplete \<Longrightarrow> is_incomplete s"
  by (auto simp: status_of_def split: sum.splits bool.splits if_splits)

lemma search_result:
  "wf_state s \<longrightarrow> is_incomplete s \<longrightarrow>
     (\<exists>r s'. expand_guess_tree s = Inr (r, s') \<and> board s' = board s \<and>
        (\<forall>q. r = Some q \<longrightarrow> solved_from s q))"
  "(\<forall>v\<in>set vs. wf_state (branch s key v)) \<longrightarrow>
     (\<exists>r. try_values s key vs = Inr r \<and>
        (\<forall>q. r = Some q \<longrightarrow> (\<exists>v\<in>set vs. solved_from (branch s key v) q)))"
proof (induction s and s key vs rule: expand_guess_tree_try_values.induct)
  case (1 s)
  show ?case
  proof (intro impI)
    assume wf: "wf_state s" and inc: "is_incomplete s"
    from select_guess_result[OF wf inc] obtain key vs gl where
      sel: "select_guess s
           = Inr (key, vs, s\<lparr>guess_list := gl,
                             domain := AList.delete key (domain s),
                             unresolved := remove1 key (unresolved s)\<rparr>)"
      and d: "map_of (domain s) key = Some vs" and u: "key \<in> set (unresolved s)"
      by blast
    let ?s' = "s\<lparr>guess_list := gl, domain := AList.delete key (domain s),
                 unresolved := remove1 key (unresolved s)\<rparr>"
    from branch_wf[OF wf u d] have bw: "\<forall>v\<in>set vs. wf_state (branch ?s' key v)"
      and be: "\<forall>v\<in>set vs. evolves s (branch ?s' key v)" by blast+
    from "1"[OF sel refl refl] bw obtain r where
      t: "try_values ?s' key vs = Inr r"
      and q: "\<forall>q. r = Some q \<longrightarrow> (\<exists>v\<in>set vs. solved_from (branch ?s' key v) q)"
      by blast
    have "expand_guess_tree s = Inr (r, ?s')"
      by (subst expand_guess_tree.simps) (simp add: sel t)
    moreover have "board ?s' = board s" by simp
    moreover from q be have "\<forall>q. r = Some q \<longrightarrow> solved_from s q"
      by (blast intro: solved_from_trans)
    ultimately show "\<exists>r s'. expand_guess_tree s = Inr (r, s') \<and> board s' = board s \<and>
        (\<forall>q. r = Some q \<longrightarrow> solved_from s q)" by blast
  qed
next
  case (2 s key)
  show ?case by simp
next
  case (3 s key v rest)
  show ?case
  proof (intro impI)
    assume all: "\<forall>v'\<in>set (v # rest). wf_state (branch s key v')"
    then have wv: "wf_state (branch s key v)"
      and wr: "\<forall>v'\<in>set rest. wf_state (branch s key v')" by simp_all
    from ac3_wf[OF wv] obtain p where
      a: "ac3 (branch s key v) = Inr p" and wp: "wf_state p" and ep: "evolves (branch s key v) p"
      by blast
    from a have a': "ac3 (s\<lparr>board := AList.update key v (board s)\<rparr>) = Inr p"
      by (simp add: branch_def)
    from status_of_total[OF wp] obtain st where st: "status_of p = Inr st" by blast
    show "\<exists>r. try_values s key (v # rest) = Inr r \<and>
        (\<forall>q. r = Some q \<longrightarrow> (\<exists>v'\<in>set (v # rest). solved_from (branch s key v') q))"
    proof (cases st)
      case Solved
      with a' st have "try_values s key (v # rest) = Inr (Some p)" by simp
      moreover from wp st Solved ep have "solved_from (branch s key v) p"
        by (simp add: solved_from_def)
      ultimately show ?thesis by auto
    next
      case Incomplete
      with st have inc: "is_incomplete p" by (simp add: status_Incomplete)
      from "3"(1)[OF a' st Incomplete] wp inc obtain r s' where
        e: "expand_guess_tree p = Inr (r, s')" and q: "\<forall>q. r = Some q \<longrightarrow> solved_from p q"
        by blast
      show ?thesis
      proof (cases r)
        case None
        with e have "fst (r, s') = None" by simp
        from "3"(2)[OF a' st Incomplete e this] wr obtain r' where
          "try_values s key rest = Inr r'"
          "\<forall>q. r' = Some q \<longrightarrow> (\<exists>v'\<in>set rest. solved_from (branch s key v') q)" by blast
        with a' st Incomplete e None show ?thesis by auto
      next
        case (Some q')
        with a' st Incomplete e have "try_values s key (v # rest) = Inr (Some q')" by simp
        moreover from q Some ep have "solved_from (branch s key v) q'"
          by (blast intro: solved_from_trans)
        ultimately show ?thesis by auto
      qed
    next
      case Invalid
      from "3"(3)[OF a' st Invalid] wr obtain r' where
        "try_values s key rest = Inr r'"
        "\<forall>q. r' = Some q \<longrightarrow> (\<exists>v'\<in>set rest. solved_from (branch s key v') q)" by blast
      with a' st Invalid show ?thesis by auto
    qed
  qed
qed

section \<open>solve and backtracking\<close>

lemma solve_result:
  assumes "wf_state s"
  shows "\<exists>s1 r s'. ac3 s = Inr s1 \<and> wf_state s1 \<and> evolves s s1 \<and>
           solve s = Inr (r, s') \<and> board s' = board s1 \<and>
           (\<forall>q. r = Some q \<longrightarrow> solved_from s q)"
proof -
  from ac3_wf[OF assms] obtain s1 where
    a: "ac3 s = Inr s1" and w1: "wf_state s1" and e1: "evolves s s1" by blast
  from status_of_total[OF w1] obtain st where st: "status_of s1 = Inr st" by blast
  show ?thesis
  proof (cases st)
    case Solved
    with a st have "solve s = Inr (Some s1, s1)" by (simp add: solve_def)
    moreover from w1 st Solved e1 have "solved_from s s1" by (simp add: solved_from_def)
    ultimately show ?thesis using a w1 e1 by auto
  next
    case Incomplete
    with st have "is_incomplete s1" by (simp add: status_Incomplete)
    with search_result(1)[of s1] w1 obtain r s' where
      e: "expand_guess_tree s1 = Inr (r, s')" and b: "board s' = board s1"
      and q: "\<forall>q. r = Some q \<longrightarrow> solved_from s1 q" by blast
    from a st Incomplete e have "solve s = Inr (r, s')" by (simp add: solve_def)
    moreover from q e1 have "\<forall>q. r = Some q \<longrightarrow> solved_from s q"
      by (blast intro: solved_from_trans)
    ultimately show ?thesis using a w1 e1 b by auto
  next
    case Invalid
    with a st have "solve s = Inr (None, s1)" by (simp add: solve_def)
    then show ?thesis using a w1 e1 by auto
  qed
qed




text \<open>
  What \<open>is_solved\<close> guarantees: a state of the solver on which it returns true has no
  cell equal to 0 or to -1, and in each of the 27 groups every digit from 1 to 9 is held
  by exactly one cell.
\<close>

theorem is_solved_groups_complete:
  assumes "wf_state s" and "is_solved s = Inr True"
  shows "0 \<notin> snd ` set (board s) \<and> - 1 \<notin> snd ` set (board s) \<and>
         (\<forall>g\<in>set all_groups. \<forall>d\<in>{1..9}.
            length (filter (\<lambda>k. map_of (board s) k = Some d) g) = 1)"
proof -
  from assms(1) have wb: "wf_board (board s)" by (simp add: wf_state_def)
  from assms(2) is_solved_result[OF wb]
  have z: "0 \<notin> snd ` set (board s)" and m: "- 1 \<notin> snd ` set (board s)"
    and d: "\<forall>g\<in>set all_groups. distinct (vals (board s) g)" by simp_all
  from distinct_group_digits[OF wb z m] d z m show ?thesis by blast
qed

lemma solve_some_solved:
  assumes "wf_grid g" "Sudoku_init g = Inr b" "solve b = Inr (Some q, b')"
  shows "wf_state q \<and> is_solved q = Inr True"
proof -
  note wb = Sudoku_init_wf[OF assms(1,2)]
  from solve_result[OF wb(1)] assms(3) have "solved_from b q" by auto
  then show ?thesis
    by (auto simp: solved_from_def status_of_def split: sum.splits bool.splits if_splits)
qed

section \<open>The cell chosen by the search\<close>

lemma select_guess_Inr:
  assumes "select_guess s = Inr (key, vs, s')"
  shows "\<exists>gl. s' = s\<lparr>guess_list := gl, domain := AList.delete key (domain s),
                       unresolved := remove1 key (unresolved s)\<rparr>"
    and "map_of (domain s) key = Some vs" and "key \<in> set (unresolved s)"
  using assms
  by (auto simp: select_guess_def split: list.splits option.splits if_splits)

text \<open>
  C6. On a state classified Incomplete the selection succeeds; the selected key has the
  fewest candidates of all entries of \<open>domain\<close>, and among the entries with that number of
  candidates it is the least key in the order of strings; the key is then no longer in
  \<open>unresolved\<close> nor in \<open>domain\<close>, and no other key has left them.
\<close>

theorem select_guess_fewest_candidates:
  assumes "wf_state s" and "is_incomplete s"
  shows "\<exists>key vs s'. select_guess s = Inr (key, vs, s') \<and>
           map_of (domain s) key = Some vs \<and>
           (\<forall>kd\<in>set (domain s).
              length vs < length (snd kd) \<or> (length vs = length (snd kd) \<and> key \<le> fst kd)) \<and>
           set (unresolved s') = set (unresolved s) - {key} \<and>
           fst ` set (domain s') = fst ` set (domain s) - {key}"
proof -
  from select_guess_result[OF assms] obtain key vs gl where
    sel: "select_guess s
           = Inr (key, vs, s\<lparr>guess_list := gl,
                             domain := AList.delete key (domain s),
                             unresolved := remove1 key (unresolved s)\<rparr>)"
    and d: "map_of (domain s) key = Some vs"
    and le: "\<forall>kd\<in>set (domain s). (length vs, key) \<le> (length (snd kd), fst kd)"
    by blast
  let ?s' = "s\<lparr>guess_list := gl, domain := AList.delete key (domain s),
               unresolved := remove1 key (unresolved s)\<rparr>"
  from le have m: "\<forall>kd\<in>set (domain s).
      length vs < length (snd kd) \<or> (length vs = length (snd kd) \<and> key \<le> fst kd)"
    by (auto simp: less_eq_prod_def)
  from assms(1) have "distinct (unresolved s)" by (simp add: wf_state_def wf_domain_def)
  then have u: "set (unresolved ?s') = set (unresolved s) - {key}" by simp
  have dd: "fst ` set (domain ?s') = fst ` set (domain s) - {key}"
    by (auto simp: set_delete image_iff)
  from sel d m u dd show ?thesis by blast
qed

section \<open>The states of a run\<close>

text \<open>
  The states that a run started on \<open>s0\<close> passes through: \<open>s0\<close> itself, the state after
  every call of \<open>make_moves\<close> that \<open>ac3\<close> can make, and every copy made by the search after
  its candidate has been assigned.
\<close>

inductive reach :: "sudoku \<Rightarrow> sudoku \<Rightarrow> bool" for s0 :: sudoku where
  start: "reach s0 s0"
| moves: "reach s0 s \<Longrightarrow> key \<in> set (unresolved s) \<Longrightarrow> cl \<in> set all_groups \<Longrightarrow> key \<in> set cl \<Longrightarrow>
          make_moves key cl s = Inr (b, s') \<Longrightarrow> reach s0 s'"
| guess: "reach s0 s \<Longrightarrow> select_guess s = Inr (key, vs, s') \<Longrightarrow> v \<in> set vs \<Longrightarrow>
          reach s0 (branch s' key v)"

lemma reach_wf:
  assumes "wf_state s0" "reach s0 s"
  shows "wf_state s \<and> evolves s0 s"
  using assms(2)
proof (induction rule: reach.induct)
  case start
  from assms(1) show ?case by (simp add: evolves_refl)
next
  case (moves s key cl b s')
  then have wf: "wf_state s" and e: "evolves s0 s" by simp_all
  from make_moves_wf[OF wf moves(2) groups_subset[OF moves(3)]] moves(5)
  have "wf_state s'" "evolves s s'" by auto
  with e show ?case by (auto intro: evolves_trans)
next
  case (guess s key vs s' v)
  then have wf: "wf_state s" and e: "evolves s0 s" by simp_all
  from select_guess_Inr[OF guess(2)] obtain gl where
    s': "s' = s\<lparr>guess_list := gl, domain := AList.delete key (domain s),
                 unresolved := remove1 key (unresolved s)\<rparr>"
    and d: "map_of (domain s) key = Some vs" and u: "key \<in> set (unresolved s)" by blast
  from branch_wf[OF wf u d guess(3), of gl] e show ?case
    unfolding s' by (auto intro: evolves_trans)
qed

lemma ac3_sweep_reach:
  "reach s0 s \<Longrightarrow> \<forall>p\<in>set ps. snd p \<in> set all_groups \<and> fst p \<in> set (snd p) \<Longrightarrow>
     ac3_sweep ps s hc = Inr (b, s') \<Longrightarrow> reach s0 s'"
proof (induction ps s hc rule: ac3_sweep.induct)
  case (1 s hc)
  then show ?case by simp
next
  case (2 key cl rest s hc)
  from "2.prems"(2) have cl: "cl \<in> set all_groups" "key \<in> set cl"
    and rest: "\<forall>p\<in>set rest. snd p \<in> set all_groups \<and> fst p \<in> set (snd p)" by simp_all
  show ?case
  proof (cases "key \<in> set (unresolved s)")
    case False
    with "2.prems" "2.IH"(3)[OF False "2.prems"(1) rest] show ?thesis by simp
  next
    case True
    show ?thesis
    proof (cases hc)
      case True
      with \<open>key \<in> set (unresolved s)\<close> "2.prems" "2.IH"(1)[OF _ True "2.prems"(1) rest]
      show ?thesis by simp
    next
      case False
      with True "2.prems"(3) obtain b1 s1 where m: "make_moves key cl s = Inr (b1, s1)"
        and r: "ac3_sweep rest s1 b1 = Inr (b, s')" by (auto split: sum.splits)
      from reach.moves[OF "2.prems"(1) True cl m] have "reach s0 s1" .
      from "2.IH"(2)[OF True False m refl this rest r] show ?thesis .
    qed
  qed
qed

lemma sweep_order_groups: "\<forall>p\<in>set sweep_order. snd p \<in> set all_groups \<and> fst p \<in> set (snd p)"
  using sweep_order_ok by fastforce

lemma ac3_reach: "reach s0 s \<Longrightarrow> ac3 s = Inr s' \<Longrightarrow> reach s0 s'"
proof (induction s rule: ac3.induct)
  case (1 s)
  from "1.prems"(2) obtain hc s1 where sw: "ac3_sweep sweep_order s False = Inr (hc, s1)"
    by (subst (asm) ac3.simps) (auto split: sum.splits)
  from ac3_sweep_reach[OF "1.prems"(1) sweep_order_groups sw] have r1: "reach s0 s1" .
  show ?case
  proof (cases hc)
    case True
    with sw "1.prems"(2) have "ac3 s1 = Inr s'" by (subst (asm) ac3.simps) simp
    from "1.IH"[OF sw refl True r1 this] show ?thesis .
  next
    case False
    with sw "1.prems"(2) have "s' = s1" by (subst (asm) ac3.simps) simp
    with r1 show ?thesis by simp
  qed
qed

section \<open>Domain, unresolved and the empty cells\<close>

lemma wf_state_zero_iff:
  assumes "wf_state s"
  shows "k \<in> fst ` set (domain s) \<longleftrightarrow> map_of (board s) k = Some 0"
proof -
  from assms have "distinct (map fst (board s))" by (simp add: wf_state_def wf_board_def)
  then have "(k, 0) \<in> set (board s) \<longleftrightarrow> map_of (board s) k = Some 0" by simp
  with wf_state_domain_iff[OF assms, of k] show ?thesis by simp
qed

text \<open>
  C7, as the code has it. In the state built by the constructor, after every call of
  \<open>make_moves\<close> and in every copy made by the search once its candidate is assigned, a cell
  has an entry in \<open>domain\<close> exactly when its board value is 0, and \<open>unresolved\<close> has the
  members of \<open>domain\<close>. In the state that \<open>expand_guess_tree\<close> leaves in \<open>self\<close> after the
  selection, \<open>unresolved\<close> and \<open>domain\<close> still agree, but the selected cell has no entry
  while its board value is 0: the candidates are assigned in the copies only.
\<close>

theorem domain_tracks_empty_cells:
  assumes "wf_grid g" and "Sudoku_init g = Inr b" and "reach b s"
  shows "(\<forall>k. k \<in> fst ` set (domain s) \<longleftrightarrow> map_of (board s) k = Some 0) \<and>
         set (unresolved s) = fst ` set (domain s) \<and>
         (\<forall>key vs s'. select_guess s = Inr (key, vs, s') \<longrightarrow>
            set (unresolved s') = fst ` set (domain s') \<and>
            key \<notin> fst ` set (domain s') \<and> map_of (board s') key = Some 0 \<and>
            (\<forall>k. k \<noteq> key \<longrightarrow>
               (k \<in> fst ` set (domain s') \<longleftrightarrow> map_of (board s') k = Some 0)))"
proof -
  from reach_wf[OF Sudoku_init_wf(1)[OF assms(1,2)] assms(3)] have wf: "wf_state s" by simp
  then have lock: "set (unresolved s) = fst ` set (domain s)"
    and du: "distinct (unresolved s)" by (simp_all add: wf_state_def wf_domain_def)
  have sel: "\<forall>key vs s'. select_guess s = Inr (key, vs, s') \<longrightarrow>
            set (unresolved s') = fst ` set (domain s') \<and>
            key \<notin> fst ` set (domain s') \<and> map_of (board s') key = Some 0 \<and>
            (\<forall>k. k \<noteq> key \<longrightarrow>
               (k \<in> fst ` set (domain s') \<longleftrightarrow> map_of (board s') k = Some 0))"
  proof (intro allI impI)
    fix key vs s' assume a: "select_guess s = Inr (key, vs, s')"
    from select_guess_Inr[OF a] obtain gl where
      s': "s' = s\<lparr>guess_list := gl, domain := AList.delete key (domain s),
                   unresolved := remove1 key (unresolved s)\<rparr>"
      and u: "key \<in> set (unresolved s)" by blast
    have d': "fst ` set (domain s') = fst ` set (domain s) - {key}"
      unfolding s' by (auto simp: set_delete image_iff)
    from du have u': "set (unresolved s') = set (unresolved s) - {key}"
      unfolding s' by simp
    have b': "board s' = board s" unfolding s' by simp
    from u lock have "key \<in> fst ` set (domain s)" by simp
    with wf_state_zero_iff[OF wf, of key] have "map_of (board s) key = Some 0" by simp
    with d' u' b' lock wf_state_zero_iff[OF wf]
    show "set (unresolved s') = fst ` set (domain s') \<and>
            key \<notin> fst ` set (domain s') \<and> map_of (board s') key = Some 0 \<and>
            (\<forall>k. k \<noteq> key \<longrightarrow>
               (k \<in> fst ` set (domain s') \<longleftrightarrow> map_of (board s') k = Some 0))"
      by simp
  qed
  from wf_state_zero_iff[OF wf] lock sel show ?thesis by blast
qed

section \<open>The selections of the search cannot fail\<close>

lemma status_Incomplete_iff:
  assumes "wf_state s"
  shows "status_of s = Inr Incomplete \<longleftrightarrow> 0 \<in> snd ` set (board s)"
proof -
  from assms have "wf_board (board s)" by (simp add: wf_state_def)
  from status_of_result[OF this] show ?thesis by auto
qed

text \<open>
  C10. In every state of a run on a well-formed grid no entry of \<open>domain\<close> is an empty list.
  When such a state is classified Incomplete, \<open>domain\<close> has an entry, the selection returns
  a key with a non-empty list of candidates, and the whole call of \<open>expand_guess_tree\<close>, with
  all its recursive calls, returns without raising.
\<close>

theorem expand_guess_tree_selection_safe:
  assumes "wf_grid g" and "Sudoku_init g = Inr b" and "reach b s"
  shows "(\<forall>kd\<in>set (domain s). snd kd \<noteq> []) \<and>
         (status_of s = Inr Incomplete \<longrightarrow>
            domain s \<noteq> [] \<and>
            (\<exists>key vs s'. select_guess s = Inr (key, vs, s') \<and> vs \<noteq> []) \<and>
            (\<exists>r. expand_guess_tree s = Inr r))"
proof -
  from reach_wf[OF Sudoku_init_wf(1)[OF assms(1,2)] assms(3)] have wf: "wf_state s" by simp
  have ne: "\<forall>kd\<in>set (domain s). snd kd \<noteq> []"
  proof
    fix kd assume "kd \<in> set (domain s)"
    with wf have "2 \<le> length (snd kd)" by (simp add: wf_state_def wf_domain_def)
    then show "snd kd \<noteq> []" by auto
  qed
  have "status_of s = Inr Incomplete \<longrightarrow>
            domain s \<noteq> [] \<and>
            (\<exists>key vs s'. select_guess s = Inr (key, vs, s') \<and> vs \<noteq> []) \<and>
            (\<exists>r. expand_guess_tree s = Inr r)"
  proof
    assume "status_of s = Inr Incomplete"
    then have inc: "is_incomplete s" by (rule status_Incomplete)
    from select_guess_result[OF wf inc] obtain key vs s' where
      sel: "select_guess s = Inr (key, vs, s')" and d: "map_of (domain s) key = Some vs"
      by blast
    from map_of_SomeD[OF d] ne have "vs \<noteq> []" by force
    moreover from map_of_SomeD[OF d] have "domain s \<noteq> []" by auto
    moreover from search_result(1)[of s] wf inc have "\<exists>r. expand_guess_tree s = Inr r"
      by blast
    ultimately show "domain s \<noteq> [] \<and>
            (\<exists>key vs s'. select_guess s = Inr (key, vs, s') \<and> vs \<noteq> []) \<and>
            (\<exists>r. expand_guess_tree s = Inr r)" using sel by blast
  qed
  with ne show ?thesis by blast
qed

section \<open>How solve classifies the state after propagation\<close>

lemma minus_one_not_solved:
  assumes "evolves s q" "- 1 \<in> snd ` set (board s)"
  shows "status_of q \<noteq> Inr Solved"
proof -
  from assms(2) obtain k where "(k, - 1) \<in> set (board s)" by auto
  with assms(1) have "(k, - 1) \<in> set (board q)" by (force simp: evolves_def)
  then have "- 1 \<in> snd ` set (board q)" by force
  then show ?thesis
    by (auto simp: status_of_def is_solved_def split: sum.splits bool.splits if_splits)
qed

text \<open>
  C5, as the code has it. After propagation \<open>solve\<close> enters the search exactly when the
  board still holds a 0, whether or not a cell holds -1. It returns the failure result
  whenever a cell holds -1 (at once if no cell is 0, after the search otherwise), and at
  once when no cell is 0 and the board is not solved. On a solved board it returns the
  state itself, without search.
\<close>

theorem solve_classification:
  assumes "wf_state s" and "ac3 s = Inr s1"
  shows "(- 1 \<in> snd ` set (board s1) \<longrightarrow> (\<exists>s'. solve s = Inr (None, s'))) \<and>
         (0 \<notin> snd ` set (board s1) \<longrightarrow> status_of s1 \<noteq> Inr Solved \<longrightarrow>
            solve s = Inr (None, s1)) \<and>
         (0 \<in> snd ` set (board s1) \<longleftrightarrow> status_of s1 = Inr Incomplete) \<and>
         (status_of s1 = Inr Incomplete \<longrightarrow> solve s = expand_guess_tree s1) \<and>
         (status_of s1 = Inr Solved \<longrightarrow> solve s = Inr (Some s1, s1))"
proof -
  from ac3_wf[OF assms(1)] assms(2) have w1: "wf_state s1" by auto
  from status_of_total[OF w1] obtain st where st: "status_of s1 = Inr st" by blast
  note iff = status_Incomplete_iff[OF w1]
  have c: "0 \<notin> snd ` set (board s1) \<longrightarrow> status_of s1 \<noteq> Inr Solved \<longrightarrow>
            solve s = Inr (None, s1)"
    using st iff assms(2) by (cases st) (auto simp: solve_def)
  have d: "status_of s1 = Inr Incomplete \<longrightarrow> solve s = expand_guess_tree s1"
    using assms(2) by (simp add: solve_def)
  have e: "status_of s1 = Inr Solved \<longrightarrow> solve s = Inr (Some s1, s1)"
    using assms(2) by (simp add: solve_def)
  have a: "- 1 \<in> snd ` set (board s1) \<longrightarrow> (\<exists>s'. solve s = Inr (None, s'))"
  proof
    assume m: "- 1 \<in> snd ` set (board s1)"
    from minus_one_not_solved[OF evolves_refl m] st have ns: "st \<noteq> Solved" by auto
    show "\<exists>s'. solve s = Inr (None, s')"
    proof (cases st)
      case Solved
      with ns show ?thesis by simp
    next
      case Invalid
      with st assms(2) show ?thesis by (simp add: solve_def)
    next
      case Incomplete
      with st have "is_incomplete s1" by (simp add: status_Incomplete)
      with search_result(1)[of s1] w1 obtain r s' where
        e: "expand_guess_tree s1 = Inr (r, s')"
        and q: "\<forall>q. r = Some q \<longrightarrow> solved_from s1 q" by blast
      have "r = None"
      proof (cases r)
        case None
        then show ?thesis .
      next
        case (Some q')
        with q have "evolves s1 q'" "status_of q' = Inr Solved"
          by (simp_all add: solved_from_def)
        with minus_one_not_solved[OF _ m] show ?thesis by blast
      qed
      with e st Incomplete assms(2) show ?thesis by (simp add: solve_def)
    qed
  qed
  from iff have iff': "0 \<in> snd ` set (board s1) \<longleftrightarrow> status_of s1 = Inr Incomplete"
    by (rule sym)
  show ?thesis
    by (intro conjI) (rule a c iff' d e)+
qed

section \<open>Termination of propagation\<close>





section \<open>Runs on concrete grids\<close>

text \<open>
  A puzzle with one solution: the solved grid of \<open>grid_one_empty\<close> with \<open>A1\<close>, \<open>A4\<close>,
  \<open>B1\<close> and \<open>B6\<close> empty.
\<close>

definition grid_four_empty :: "int list" where
  "grid_four_empty =
     [0, 3, 4, 0, 7, 8, 9, 1, 2,
      0, 7, 2, 1, 9, 0, 3, 4, 8,
      1, 9, 8, 3, 4, 2, 5, 6, 7,
      8, 5, 9, 7, 6, 1, 4, 2, 3,
      4, 2, 6, 8, 5, 3, 7, 9, 1,
      7, 1, 3, 9, 2, 4, 8, 5, 6,
      9, 6, 1, 5, 3, 7, 2, 8, 4,
      2, 8, 7, 4, 1, 9, 6, 3, 5,
      3, 4, 5, 2, 8, 6, 1, 7, 9]"

definition four_init :: sudoku where
  "four_init =
     \<lparr>board = parse_board grid_four_empty, guess_list = [],
      domain = [(''A1'', [1, 2, 3, 4, 5, 6, 7, 8, 9]), (''A4'', [1, 2, 3, 4, 5, 6, 7, 8, 9]),
                (''B1'', [1, 2, 3, 4, 5, 6, 7, 8, 9]), (''B6'', [1, 2, 3, 4, 5, 6, 7, 8, 9])],
      unresolved = [''A1'', ''A4'', ''B1'', ''B6'']\<rparr>"


definition grid_four_after :: "int list" where
  "grid_four_after =
     [0, 3, 4, 6, 7, 8, 9, 1, 2,
      0, 7, 2, 1, 9, 5, 3, 4, 8,
      1, 9, 8, 3, 4, 2, 5, 6, 7,
      8, 5, 9, 7, 6, 1, 4, 2, 3,
      4, 2, 6, 8, 5, 3, 7, 9, 1,
      7, 1, 3, 9, 2, 4, 8, 5, 6,
      9, 6, 1, 5, 3, 7, 2, 8, 4,
      2, 8, 7, 4, 1, 9, 6, 3, 5,
      3, 4, 5, 2, 8, 6, 1, 7, 9]"

definition four_after :: sudoku where
  "four_after =
     \<lparr>board = parse_board grid_four_after, guess_list = [],
      domain = [(''A1'', [5, 6]), (''B1'', [5, 6])], unresolved = [''A1'', ''B1'']\<rparr>"

definition four_parent :: sudoku where
  "four_parent =
     \<lparr>board = parse_board grid_four_after, guess_list = [(2, ''B1'')],
      domain = [(''B1'', [5, 6])], unresolved = [''B1'']\<rparr>"

lemma four_init: "Sudoku_init (parse_board grid_four_empty) = Inr four_init"
  by code_simp


lemma four_ac3: "ac3 four_init = Inr four_after"
  by code_simp

lemma four_select: "select_guess four_after = Inr (''A1'', [5, 6], four_parent)"
  by code_simp


lemma wf_grid_four_empty: "wf_grid (parse_board grid_four_empty)"
  by (rule wf_grid_parse) (simp_all add: grid_four_empty_def)

lemma reach_four_after: "reach four_init four_after"
  by (rule ac3_reach[OF reach.start four_ac3])

definition four_solved :: sudoku where
  "four_solved =
     \<lparr>board = parse_board
        [5, 3, 4, 6, 7, 8, 9, 1, 2,
         6, 7, 2, 1, 9, 5, 3, 4, 8,
         1, 9, 8, 3, 4, 2, 5, 6, 7,
         8, 5, 9, 7, 6, 1, 4, 2, 3,
         4, 2, 6, 8, 5, 3, 7, 9, 1,
         7, 1, 3, 9, 2, 4, 8, 5, 6,
         9, 6, 1, 5, 3, 7, 2, 8, 4,
         2, 8, 7, 4, 1, 9, 6, 3, 5,
         3, 4, 5, 2, 8, 6, 1, 7, 9],
      guess_list = [], domain = [], unresolved = []\<rparr>"

lemma four_again: "ac3 four_after = Inr four_solved"
  by code_simp

text \<open>
  C3 at this puzzle. \<open>ac3\<close> returns with \<open>A1\<close> unresolved and 6 among its candidates
  although \<open>A4\<close>, in the same row, holds 6: \<open>A4\<close> was committed in the last sweep, after
  the visits of \<open>A1\<close> in its row and column, and the commit makes \<open>make_moves\<close> return
  \<open>False\<close>, so no further sweep is run. Running \<open>ac3\<close> once more changes the state.
\<close>

theorem ac3_returns_before_fixpoint:
  "Sudoku_init (parse_board grid_four_empty) = Inr four_init \<and>
   ac3 four_init = Inr four_after \<and>
   ''A1'' \<in> set (unresolved four_after) \<and>
   map_of (domain four_after) ''A1'' = Some [5, 6] \<and>
   map_of (board four_after) ''A4'' = Some 6 \<and>
   hd constraints_row \<in> set all_groups \<and>
   ''A1'' \<in> set (hd constraints_row) \<and> ''A4'' \<in> set (hd constraints_row) \<and>
   ac3 four_after = Inr four_solved \<and> four_solved \<noteq> four_after"
proof -
  have 1: "''A1'' \<in> set (unresolved four_after)" by (simp add: four_after_def)
  have 2: "map_of (domain four_after) ''A1'' = Some [5, 6]" by (simp add: four_after_def)
  have 3: "map_of (board four_after) ''A4'' = Some 6" by code_simp
  have 4: "hd constraints_row \<in> set all_groups \<and>
   ''A1'' \<in> set (hd constraints_row) \<and> ''A4'' \<in> set (hd constraints_row)" by code_simp
  have 5: "four_solved \<noteq> four_after"
  proof
    assume "four_solved = four_after"
    then have "unresolved four_solved = unresolved four_after" by simp
    then show False by (simp add: four_solved_def four_after_def)
  qed
  from four_init four_ac3 1 2 3 4 four_again 5 show ?thesis by simp
qed

text \<open>
  The claim C7 fails in the state that the selection leaves in \<open>self\<close>: \<open>A1\<close> is 0 on the
  board and has no entry in \<open>domain\<close>.
\<close>

theorem selected_cell_untracked:
  "Sudoku_init (parse_board grid_four_empty) = Inr four_init \<and>
   ac3 four_init = Inr four_after \<and>
   select_guess four_after = Inr (''A1'', [5, 6], four_parent) \<and>
   map_of (board four_parent) ''A1'' = Some 0 \<and>
   ''A1'' \<notin> fst ` set (domain four_parent)"
proof -
  have 1: "map_of (board four_parent) ''A1'' = Some 0" by code_simp
  have 2: "''A1'' \<notin> fst ` set (domain four_parent)" by (simp add: four_parent_def)
  from four_init four_ac3 four_select 1 2 show ?thesis by simp
qed

theorem domain_tracks_empty_cells_witness:
  "wf_grid (parse_board grid_four_empty) \<and>
   Sudoku_init (parse_board grid_four_empty) = Inr four_init \<and>
   reach four_init four_after \<and>
   select_guess four_after = Inr (''A1'', [5, 6], four_parent) \<and>
   (\<forall>k. k \<in> fst ` set (domain four_after) \<longleftrightarrow> map_of (board four_after) k = Some 0) \<and>
   set (unresolved four_after) = fst ` set (domain four_after) \<and>
   set (unresolved four_parent) = fst ` set (domain four_parent) \<and>
   ''A1'' \<notin> fst ` set (domain four_parent) \<and>
   map_of (board four_parent) ''A1'' = Some 0"
proof -
  note t = domain_tracks_empty_cells[OF wf_grid_four_empty four_init reach_four_after]
  from t have a:
    "\<forall>k. k \<in> fst ` set (domain four_after) \<longleftrightarrow> map_of (board four_after) k = Some 0"
    by (rule conjunct1)
  from t have b: "set (unresolved four_after) = fst ` set (domain four_after)"
    by (rule conjunct1[OF conjunct2])
  note c = conjunct2[OF conjunct2[OF t], rule_format, OF four_select]
  from c have c1: "set (unresolved four_parent) = fst ` set (domain four_parent)"
    by (rule conjunct1)
  from c have c2: "''A1'' \<notin> fst ` set (domain four_parent)"
    by (rule conjunct1[OF conjunct2])
  from c have c3: "map_of (board four_parent) ''A1'' = Some 0"
    by (rule conjunct1[OF conjunct2[OF conjunct2]])
  show ?thesis
    by (intro conjI) (rule wf_grid_four_empty four_init reach_four_after four_select a b c1 c2 c3)+
qed


theorem expand_guess_tree_selection_safe_witness:
  "wf_grid (parse_board grid_four_empty) \<and>
   Sudoku_init (parse_board grid_four_empty) = Inr four_init \<and>
   reach four_init four_after \<and>
   status_of four_after = Inr Incomplete \<and>
   [] \<notin> snd ` set (domain four_after) \<and>
   domain four_after \<noteq> [] \<and>
   (\<exists>key vs s'. select_guess four_after = Inr (key, vs, s') \<and> vs \<noteq> []) \<and>
   (\<exists>r. expand_guess_tree four_after = Inr r)"
proof -
  have s: "status_of four_after = Inr Incomplete" by code_simp
  note t = expand_guess_tree_selection_safe[OF wf_grid_four_empty four_init reach_four_after]
  from t have "[] \<notin> snd ` set (domain four_after)" by force
  with t wf_grid_four_empty four_init reach_four_after s
  show ?thesis by simp
qed

text \<open>
  The solved board of the puzzle above, which \<open>ac3\<close> reaches from \<open>four_after\<close>.
\<close>

lemma wf_state_four_solved: "wf_state four_solved"
proof -
  have "wf_state four_init"
    by (rule Sudoku_init_wf(1)[OF wf_grid_four_empty four_init])
  moreover have "reach four_init four_solved"
    by (rule ac3_reach[OF reach_four_after four_again])
  ultimately show ?thesis by (simp add: reach_wf)
qed

lemma four_solved_is_solved: "is_solved four_solved = Inr True"
  by code_simp

theorem is_solved_groups_complete_witness:
  "wf_state four_solved \<and> is_solved four_solved = Inr True \<and>
   0 \<notin> snd ` set (board four_solved) \<and> - 1 \<notin> snd ` set (board four_solved) \<and>
   hd constraints_row \<in> set all_groups \<and>
   length (filter (\<lambda>k. map_of (board four_solved) k = Some 5) (hd constraints_row)) = 1"
proof -
  note t = is_solved_groups_complete[OF wf_state_four_solved four_solved_is_solved]
  have g: "hd constraints_row \<in> set all_groups" by code_simp
  have d: "(5::int) \<in> {1..9}" by simp
  from t have z: "0 \<notin> snd ` set (board four_solved)" by (rule conjunct1)
  from t have m: "- 1 \<notin> snd ` set (board four_solved)" by (rule conjunct1[OF conjunct2])
  note c = conjunct2[OF conjunct2[OF t], rule_format, OF g d]
  show ?thesis
    by (intro conjI) (rule wf_state_four_solved four_solved_is_solved z m g c)+
qed

text \<open>
  The selection at the state that \<open>ac3\<close> returns for the puzzle above: \<open>A1\<close> and \<open>B1\<close>
  both have two candidates, and \<open>A1\<close> is selected.
\<close>

theorem select_guess_fewest_candidates_witness:
  "wf_state four_after \<and> is_incomplete four_after \<and>
   select_guess four_after = Inr (''A1'', [5, 6], four_parent) \<and>
   map_of (domain four_after) ''A1'' = Some [5, 6] \<and>
   (''B1'', [5, 6]) \<in> set (domain four_after) \<and> ''A1'' \<le> ''B1'' \<and>
   set (unresolved four_parent) = set (unresolved four_after) - {''A1''} \<and>
   fst ` set (domain four_parent) = fst ` set (domain four_after) - {''A1''}"
proof -
  have wf: "wf_state four_after"
    using Sudoku_init_wf(1)[OF wf_grid_four_empty four_init] reach_four_after
    by (simp add: reach_wf)
  have i: "is_incomplete four_after" by code_simp
  from select_guess_fewest_candidates[OF wf i] obtain key vs s' where
    sel: "select_guess four_after = Inr (key, vs, s')"
    and m: "map_of (domain four_after) key = Some vs"
    and le: "\<forall>kd\<in>set (domain four_after).
        length vs < length (snd kd) \<or> (length vs = length (snd kd) \<and> key \<le> fst kd)"
    and u: "set (unresolved s') = set (unresolved four_after) - {key}"
    and d: "fst ` set (domain s') = fst ` set (domain four_after) - {key}"
    by (elim exE conjE) (rule that)
  from sel[unfolded four_select] have k: "key = ''A1''" "vs = [5, 6]" "s' = four_parent"
    by simp_all
  have b: "(''B1'', [5, 6]) \<in> set (domain four_after)" by (simp add: four_after_def)
  from le[rule_format, OF b] have "key \<le> ''B1''" by (simp add: k(2))
  with k(1) have o: "''A1'' \<le> ''B1''" by simp
  show ?thesis
    by (intro conjI)
      (rule wf i four_select m[unfolded k] b o u[unfolded k] d[unfolded k])+
qed

section \<open>A grid with a conflict and a cell left empty\<close>

text \<open>
  The solved grid with \<open>A1\<close> and \<open>A2\<close> empty, \<open>D1\<close> set to 5 and \<open>D2\<close> set to 8: the
  givens of row \<open>D\<close> and of columns 1 and 2 clash.
\<close>

definition grid_conflict :: "int list" where
  "grid_conflict =
     [0, 0, 4, 6, 7, 8, 9, 1, 2,
      6, 7, 2, 1, 9, 5, 3, 4, 8,
      1, 9, 8, 3, 4, 2, 5, 6, 7,
      5, 8, 9, 7, 6, 1, 4, 2, 3,
      4, 2, 6, 8, 5, 3, 7, 9, 1,
      7, 1, 3, 9, 2, 4, 8, 5, 6,
      9, 6, 1, 5, 3, 7, 2, 8, 4,
      2, 8, 7, 4, 1, 9, 6, 3, 5,
      3, 4, 5, 2, 8, 6, 1, 7, 9]"

definition conflict_init :: sudoku where
  "conflict_init =
     \<lparr>board = parse_board grid_conflict, guess_list = [],
      domain = [(''A1'', [1, 2, 3, 4, 5, 6, 7, 8, 9]), (''A2'', [1, 2, 3, 4, 5, 6, 7, 8, 9])],
      unresolved = [''A1'', ''A2'']\<rparr>"

definition conflict_after :: sudoku where
  "conflict_after =
     \<lparr>board = parse_board
        [- 1, 0, 4, 6, 7, 8, 9, 1, 2,
         6, 7, 2, 1, 9, 5, 3, 4, 8,
         1, 9, 8, 3, 4, 2, 5, 6, 7,
         5, 8, 9, 7, 6, 1, 4, 2, 3,
         4, 2, 6, 8, 5, 3, 7, 9, 1,
         7, 1, 3, 9, 2, 4, 8, 5, 6,
         9, 6, 1, 5, 3, 7, 2, 8, 4,
         2, 8, 7, 4, 1, 9, 6, 3, 5,
         3, 4, 5, 2, 8, 6, 1, 7, 9],
      guess_list = [], domain = [(''A2'', [3, 5])], unresolved = [''A2'']\<rparr>"

lemma conflict_init: "Sudoku_init (parse_board grid_conflict) = Inr conflict_init"
  by code_simp

lemma conflict_ac3: "ac3 conflict_init = Inr conflict_after"
  by code_simp

lemma conflict_status: "status_of conflict_after = Inr Incomplete"
  by code_simp

lemma conflict_minus_one: "- 1 \<in> snd ` set (board conflict_after)"
  by code_simp

lemma wf_state_conflict_init: "wf_state conflict_init"
proof -
  have "wf_grid (parse_board grid_conflict)"
    by (rule wf_grid_parse) (simp_all add: grid_conflict_def)
  from Sudoku_init_wf(1)[OF this conflict_init] show ?thesis .
qed

text \<open>
  The claim C5 fails on this grid: after propagation \<open>A1\<close> holds -1 and \<open>A2\<close> is still 0;
  the state is classified Incomplete and \<open>solve\<close> calls \<open>expand_guess_tree\<close>.
\<close>

theorem search_entered_despite_conflict:
  "Sudoku_init (parse_board grid_conflict) = Inr conflict_init \<and>
   ac3 conflict_init = Inr conflict_after \<and>
   - 1 \<in> snd ` set (board conflict_after) \<and>
   status_of conflict_after = Inr Incomplete \<and>
   solve conflict_init = expand_guess_tree conflict_after"
proof -
  have "solve conflict_init = expand_guess_tree conflict_after"
    unfolding solve_def by (simp only: conflict_ac3 conflict_status sum.case status.case)
  with conflict_init conflict_ac3 conflict_minus_one conflict_status show ?thesis by simp
qed

lemma wf_state_four_after: "wf_state four_after"
proof -
  have "wf_state four_init"
    by (rule Sudoku_init_wf(1)[OF wf_grid_four_empty four_init])
  with reach_four_after show ?thesis by (simp add: reach_wf)
qed

lemma four_solved_status: "status_of four_solved = Inr Solved"
  by (simp add: status_of_def four_solved_is_solved)

theorem solve_classification_witness:
  "wf_state conflict_init \<and> ac3 conflict_init = Inr conflict_after \<and>
   - 1 \<in> snd ` set (board conflict_after) \<and>
   (\<exists>s'. solve conflict_init = Inr (None, s')) \<and>
   0 \<in> snd ` set (board conflict_after) \<and>
   status_of conflict_after = Inr Incomplete \<and>
   solve conflict_init = expand_guess_tree conflict_after \<and>
   wf_state four_after \<and> ac3 four_after = Inr four_solved \<and>
   status_of four_solved = Inr Solved \<and>
   solve four_after = Inr (Some four_solved, four_solved)"
proof -
  note t = solve_classification[OF wf_state_conflict_init conflict_ac3]
  from conjunct1[OF t] conflict_minus_one
  have a: "\<exists>s'. solve conflict_init = Inr (None, s')" by (rule mp)
  from conjunct1[OF conjunct2[OF conjunct2[OF t]]] conflict_status
  have z: "0 \<in> snd ` set (board conflict_after)" by simp
  from conjunct1[OF conjunct2[OF conjunct2[OF conjunct2[OF t]]]] conflict_status
  have e: "solve conflict_init = expand_guess_tree conflict_after" by (rule mp)
  note t2 = solve_classification[OF wf_state_four_after four_again]
  from conjunct2[OF conjunct2[OF conjunct2[OF conjunct2[OF t2]]]] four_solved_status
  have s: "solve four_after = Inr (Some four_solved, four_solved)" by (rule mp)
  show ?thesis
    by (intro conjI)
      (rule wf_state_conflict_init conflict_ac3 conflict_minus_one a z conflict_status e
        wf_state_four_after four_again four_solved_status s)+
qed

section \<open>A grid with two equal givens in a row\<close>

text \<open>
  The solved grid with \<open>A1\<close> empty and \<open>I1\<close> set to 5: row \<open>I\<close> holds 5 twice, and 5 is
  the only candidate that row \<open>A\<close> leaves for \<open>A1\<close>.
\<close>

definition grid_row_conflict :: "int list" where
  "grid_row_conflict =
     [0, 3, 4, 6, 7, 8, 9, 1, 2,
      6, 7, 2, 1, 9, 5, 3, 4, 8,
      1, 9, 8, 3, 4, 2, 5, 6, 7,
      8, 5, 9, 7, 6, 1, 4, 2, 3,
      4, 2, 6, 8, 5, 3, 7, 9, 1,
      7, 1, 3, 9, 2, 4, 8, 5, 6,
      9, 6, 1, 5, 3, 7, 2, 8, 4,
      2, 8, 7, 4, 1, 9, 6, 3, 5,
      5, 4, 5, 2, 8, 6, 1, 7, 9]"

definition row_conflict_init :: sudoku where
  "row_conflict_init =
     \<lparr>board = parse_board grid_row_conflict, guess_list = [],
      domain = [(''A1'', [1, 2, 3, 4, 5, 6, 7, 8, 9])], unresolved = [''A1'']\<rparr>"

definition row_conflict_after :: sudoku where
  "row_conflict_after =
     \<lparr>board = parse_board
        [- 1, 3, 4, 6, 7, 8, 9, 1, 2,
         6, 7, 2, 1, 9, 5, 3, 4, 8,
         1, 9, 8, 3, 4, 2, 5, 6, 7,
         8, 5, 9, 7, 6, 1, 4, 2, 3,
         4, 2, 6, 8, 5, 3, 7, 9, 1,
         7, 1, 3, 9, 2, 4, 8, 5, 6,
         9, 6, 1, 5, 3, 7, 2, 8, 4,
         2, 8, 7, 4, 1, 9, 6, 3, 5,
         5, 4, 5, 2, 8, 6, 1, 7, 9],
      guess_list = [], domain = [], unresolved = []\<rparr>"

lemma row_conflict_init: "Sudoku_init (parse_board grid_row_conflict) = Inr row_conflict_init"
  by code_simp

lemma row_conflict_solve: "solve row_conflict_init = Inr (None, row_conflict_after)"
  by code_simp

text \<open>
  C1 at this grid. \<open>solve\<close> fails, and the board that \<open>backtracking\<close> returns is the
  argument as propagation left it: \<open>A1\<close>, 0 in the input, is -1 in the result.
\<close>

theorem backtracking_returns_modified_board:
  "Sudoku_init (parse_board grid_row_conflict) = Inr row_conflict_init \<and>
   solve row_conflict_init = Inr (None, row_conflict_after) \<and>
   backtracking (parse_board grid_row_conflict) = Inr (board row_conflict_after) \<and>
   map_of (parse_board grid_row_conflict) ''A1'' = Some 0 \<and>
   map_of (board row_conflict_after) ''A1'' = Some (- 1)"
proof -
  have b: "backtracking (parse_board grid_row_conflict) = Inr (board row_conflict_after)"
    by (simp add: backtracking_def row_conflict_init row_conflict_solve)
  have i: "map_of (parse_board grid_row_conflict) ''A1'' = Some 0" by code_simp
  have o: "map_of (board row_conflict_after) ''A1'' = Some (- 1)" by code_simp
  from row_conflict_init row_conflict_solve b i o show ?thesis by simp
qed

text \<open>
  C2 at this grid. The board that \<open>backtracking\<close> returns differs from its input, and it is
  not a solved board: \<open>A1\<close> holds -1 and \<open>is_solved\<close> is false on it. The returned board
  is the input dictionary that the propagation of \<open>solve\<close> has written to, as in C1.
\<close>

theorem backtracking_returns_unsolved_board:
  "backtracking (parse_board grid_row_conflict) = Inr (board row_conflict_after) \<and>
   board row_conflict_after \<noteq> parse_board grid_row_conflict \<and>
   - 1 \<in> snd ` set (board row_conflict_after) \<and>
   is_solved row_conflict_after = Inr False"
proof -
  have b: "backtracking (parse_board grid_row_conflict) = Inr (board row_conflict_after)"
    by (simp add: backtracking_def row_conflict_init row_conflict_solve)
  have i: "map_of (parse_board grid_row_conflict) ''A1'' = Some 0" by code_simp
  have o: "map_of (board row_conflict_after) ''A1'' = Some (- 1)" by code_simp
  have n: "board row_conflict_after \<noteq> parse_board grid_row_conflict"
  proof
    assume "board row_conflict_after = parse_board grid_row_conflict"
    with i o show False by simp
  qed
  have m: "- 1 \<in> snd ` set (board row_conflict_after)" by code_simp
  have s: "is_solved row_conflict_after = Inr False" by code_simp
  show ?thesis
    by (intro conjI) (rule b n m s)+
qed

text \<open>
  Two calls of \<open>make_moves\<close> for \<open>A1\<close> in row \<open>A\<close>, each from nine candidates: on the grid
  above only 5 is held by no cell of the row, and it is committed; on the puzzle with
  four empty cells 5 and 6 are left.
\<close>

lemma wf_state_row_conflict_init: "wf_state row_conflict_init"
proof -
  have "wf_grid (parse_board grid_row_conflict)"
    by (rule wf_grid_parse) (simp_all add: grid_row_conflict_def)
  from Sudoku_init_wf(1)[OF this row_conflict_init] show ?thesis .
qed

lemma row_a_group: "hd constraints_row \<in> set all_groups \<and> ''A1'' \<in> set (hd constraints_row)"
  by code_simp

lemma row_conflict_unheld:
  "unheld (board row_conflict_init) (hd constraints_row) [1, 2, 3, 4, 5, 6, 7, 8, 9] = [5]"
  by code_simp

lemma four_unheld:
  "unheld (board four_init) (hd constraints_row) [1, 2, 3, 4, 5, 6, 7, 8, 9] = [5, 6]"
  by code_simp

theorem make_moves_commits_last_candidate_witness:
  "wf_state row_conflict_init \<and> ''A1'' \<in> set (unresolved row_conflict_init) \<and>
   hd constraints_row \<in> set all_groups \<and> ''A1'' \<in> set (hd constraints_row) \<and>
   map_of (domain row_conflict_init) ''A1'' = Some [1, 2, 3, 4, 5, 6, 7, 8, 9] \<and>
   unheld (board row_conflict_init) (hd constraints_row) [1, 2, 3, 4, 5, 6, 7, 8, 9] = [5] \<and>
   make_moves ''A1'' (hd constraints_row) row_conflict_init =
     Inr (False,
          row_conflict_init
            \<lparr>board := AList.update ''A1''
                       (if peer_holds (board row_conflict_init) ''A1'' 5 then - 1 else 5)
                       (board row_conflict_init),
             unresolved := remove1 ''A1'' (unresolved row_conflict_init),
             domain := AList.delete ''A1'' (domain row_conflict_init)\<rparr>) \<and>
   wf_state four_init \<and> ''A1'' \<in> set (unresolved four_init) \<and>
   map_of (domain four_init) ''A1'' = Some [1, 2, 3, 4, 5, 6, 7, 8, 9] \<and>
   unheld (board four_init) (hd constraints_row) [1, 2, 3, 4, 5, 6, 7, 8, 9] = [5, 6] \<and>
   make_moves ''A1'' (hd constraints_row) four_init =
     Inr (True, four_init\<lparr>domain := AList.update ''A1'' [5, 6] (domain four_init)\<rparr>)"
proof -
  note g = conjunct1[OF row_a_group] and a = conjunct2[OF row_a_group]
  have u1: "''A1'' \<in> set (unresolved row_conflict_init)"
    by (simp add: row_conflict_init_def)
  have d1: "map_of (domain row_conflict_init) ''A1'' = Some [1, 2, 3, 4, 5, 6, 7, 8, 9]"
    by (simp add: row_conflict_init_def)
  note t1 = make_moves_commits_last_candidate[OF wf_state_row_conflict_init u1 g a d1]
  have l: "length (unheld (board row_conflict_init) (hd constraints_row)
                     [1, 2, 3, 4, 5, 6, 7, 8, 9]) < 2"
    by (simp add: row_conflict_unheld)
  from conjunct2[OF t1, THEN mp, OF l] obtain c where
    c: "set (unheld (board row_conflict_init) (hd constraints_row)
              [1, 2, 3, 4, 5, 6, 7, 8, 9]) \<subseteq> {c}"
    and m: "make_moves ''A1'' (hd constraints_row) row_conflict_init =
     Inr (False,
          row_conflict_init
            \<lparr>board := AList.update ''A1''
                       (if peer_holds (board row_conflict_init) ''A1'' c then - 1 else c)
                       (board row_conflict_init),
             unresolved := remove1 ''A1'' (unresolved row_conflict_init),
             domain := AList.delete ''A1'' (domain row_conflict_init)\<rparr>)"
    by (elim bexE conjE) (rule that)
  from c[unfolded row_conflict_unheld] have c5: "c = 5" by simp
  have w2: "wf_state four_init"
    by (rule Sudoku_init_wf(1)[OF wf_grid_four_empty four_init])
  have u2: "''A1'' \<in> set (unresolved four_init)" by (simp add: four_init_def)
  have d2: "map_of (domain four_init) ''A1'' = Some [1, 2, 3, 4, 5, 6, 7, 8, 9]"
    by (simp add: four_init_def)
  note t2 = make_moves_commits_last_candidate[OF w2 u2 g a d2]
  from conjunct1[OF t2] four_unheld
  have m2: "make_moves ''A1'' (hd constraints_row) four_init =
     Inr (True, four_init\<lparr>domain := AList.update ''A1'' [5, 6] (domain four_init)\<rparr>)"
    by simp
  show ?thesis
    by (intro conjI)
      (rule wf_state_row_conflict_init u1 g a d1 row_conflict_unheld m[unfolded c5]
        w2 u2 d2 four_unheld m2)+
qed

end
